theory Spec2Isabelle
  imports Main "HOL-Library.Word" "HOL-Library.Signed_Division" "HOL-Library.Monad_Syntax"
begin

unbundle bit_operations_syntax

section \<open>Machine integers of \<open>mph.c\<close>\<close>

text \<open>
  \<open>uint64_t\<close> is a 64-bit word. A C \<open>int\<close> is a 32-bit word whose value is read with
  \<open>sint\<close>; the conversion of a \<open>uint64_t\<close> to \<open>int\<close> keeps the low 32 bits (\<open>ucast\<close>),
  the conversion of an \<open>int\<close> to \<open>uint64_t\<close> extends the sign (\<open>scast\<close>).
\<close>

type_synonym u64 = "64 word"
type_synonym i32 = "32 word"
type_synonym u8 = "8 word"

section \<open>Vertex-offset decoder\<close>

text \<open>\<open>#define OFFSET_MASK (UINT64_C(-1) >> 8)\<close>\<close>

definition OFFSET_MASK :: u64 where
  "OFFSET_MASK = drop_bit 8 (- 1)"

text \<open>
  \<open>#define C_TIMES_256 (int)(floor((1.09 + 0.01) * 256))\<close>: the product is 281.6 up to
  a rounding error far below 0.4, so the constant is the \<open>int\<close> 281.
\<close>

definition C_TIMES_256 :: i32 where
  "C_TIMES_256 = 281"

text \<open>
  \<open>return ((edge_offset_seed & OFFSET_MASK) * C_TIMES_256 >> 8);\<close>
  The \<open>int\<close> constant is converted to \<open>uint64_t\<close> and the product is taken in 64 bits.
\<close>

definition vertex_offset :: "u64 \<Rightarrow> u64" where
  "vertex_offset edge_offset_seed =
     drop_bit 8 ((edge_offset_seed AND OFFSET_MASK) * scast C_TIMES_256)"

section \<open>Memory reads, shifts and compiler builtins\<close>

text \<open>
  \<open>a[i]\<close>: a list stands for the allocated elements behind a pointer. A read outside
  them is undefined behaviour in C and is the value \<open>None\<close> here. A null pointer is the
  empty list: nothing can be read through either.
\<close>

definition array_get :: "'a list \<Rightarrow> int \<Rightarrow> 'a option" where
  "array_get a i = (if 0 \<le> i \<and> i < int (length a) then Some (a ! nat i) else None)"

text \<open>
  \<open>x >> n\<close> on a \<open>uint64_t\<close> with a shift count that is not known to be below 64: the
  behaviour is undefined when the count is negative or at least the width.
\<close>

definition shift_right :: "u64 \<Rightarrow> int \<Rightarrow> u64 option" where
  "shift_right x n = (if 0 \<le> n \<and> n < 64 then Some (drop_bit (nat n) x) else None)"

text \<open>\<open>int __builtin_popcountll(unsigned long long)\<close>: the number of 1-bits.\<close>

definition popcountll :: "u64 \<Rightarrow> i32" where
  "popcountll x = of_nat (length (filter (bit x) [0..<64]))"

text \<open>
  \<open>int __builtin_clzll(unsigned long long)\<close>: the number of leading 0-bits, starting at
  the most significant bit; the result is undefined for 0.
\<close>

fun clz_below :: "u64 \<Rightarrow> nat \<Rightarrow> nat" where
  "clz_below x 0 = 0"
| "clz_below x (Suc n) = (if bit x n then 0 else Suc (clz_below x n))"

definition clzll :: "u64 \<Rightarrow> i32 option" where
  "clzll x = (if x = 0 then None else Some (of_nat (clz_below x 64)))"

section \<open>Rank operator\<close>

text \<open>\<open>return __builtin_popcountll((x | x >> 1) & 0x5555555555555555);\<close>\<close>

definition count_nonzero_pairs_word :: "u64 \<Rightarrow> i32" where
  "count_nonzero_pairs_word x = popcountll ((x OR drop_bit 1 x) AND 0x5555555555555555)"

text \<open>\<open>while(block < end_block) pairs += _count_nonzero_pairs(array[block++]);\<close>\<close>

function count_blocks :: "u64 list \<Rightarrow> i32 \<Rightarrow> i32 \<Rightarrow> u64 \<Rightarrow> (i32 \<times> u64) option" where
  "count_blocks array block end_block pairs =
     (if block <s end_block then
        (case array_get array (sint block) of
           None \<Rightarrow> None
         | Some w \<Rightarrow>
             count_blocks array (block + 1) end_block (pairs + scast (count_nonzero_pairs_word w)))
      else Some (block, pairs))"
  by pat_completeness auto
termination
proof (relation "measure (\<lambda>(array, block, end_block, pairs). nat (sint end_block - sint block))")
  show "wf (measure (\<lambda>(array, block, end_block, pairs). nat (sint end_block - sint block)))"
    by simp
next
  fix array :: "u64 list" and block end_block :: i32 and pairs w :: u64
  assume lt: "block <s end_block"
  have "sint end_block < 2 ^ 31"
    using sint_lt [of end_block] by simp
  with lt have small: "sint block + 1 < 2 ^ 31" and low: "- (2 ^ 31) \<le> sint block + 1"
    using sint_ge [of block] by (simp_all add: word_sless_alt)
  have "sint (block + 1) = signed_take_bit 31 (sint block + 1)"
    by (simp add: sint_word_ariths)
  also have "\<dots> = sint block + 1"
    using small low by (simp add: signed_take_bit_int_eq_self)
  finally have "sint (block + 1) = sint block + 1" .
  with lt show "((array, block + 1, end_block, pairs + scast (count_nonzero_pairs_word w)),
                 (array, block, end_block, pairs))
                \<in> measure (\<lambda>(array, block, end_block, pairs). nat (sint end_block - sint block))"
    by (simp add: word_sless_alt)
qed

declare count_blocks.simps [simp del]

text \<open>
  \<open>count_nonzero_pairs(start, end, array)\<close>. The block indices and the offsets are
  \<open>int\<close>s. The offsets lie in 0..31, so every shift count \<open>offset * 2\<close> is below 64.
\<close>

definition count_nonzero_pairs :: "u64 \<Rightarrow> u64 \<Rightarrow> u64 list \<Rightarrow> u64 option" where
  "count_nonzero_pairs start endp array =
     (let block = (ucast (start div 32) :: i32);
          end_block = (ucast (endp div 32) :: i32);
          start_offset = (ucast (start mod 32) :: i32);
          end_offset = (ucast (endp mod 32) :: i32)
      in if block = end_block then
           do {
             w \<leftarrow> array_get array (sint block);
             Some (scast (count_nonzero_pairs_word
               (drop_bit (nat (sint (start_offset * 2)))
                  (w AND (push_bit (nat (sint (end_offset * 2))) 1 - 1)))))
           }
         else
           do {
             (block1, pairs1) \<leftarrow>
               (if start_offset \<noteq> 0 then
                  do {
                    w \<leftarrow> array_get array (sint block);
                    Some (block + 1,
                      scast (count_nonzero_pairs_word (drop_bit (nat (sint (start_offset * 2))) w)))
                  }
                else Some (block, 0));
             (block2, pairs2) \<leftarrow> count_blocks array block1 end_block pairs1;
             if end_offset \<noteq> 0 then
               do {
                 w \<leftarrow> array_get array (sint block2);
                 Some (pairs2 + scast (count_nonzero_pairs_word
                   (w AND (push_bit (nat (sint (end_offset * 2))) 1 - 1))))
               }
             else Some pairs2
           })"

text \<open>
  \<open>get_2bit_value(array, pos)\<close>: \<open>pos *= 2; return array[pos / 64] >> pos % 64 & 3;\<close>
\<close>

definition get_2bit_value :: "u64 list \<Rightarrow> u64 \<Rightarrow> i32 option" where
  "get_2bit_value array pos0 =
     (let pos = pos0 * 2
      in do {
           w \<leftarrow> array_get array (uint (pos div 64));
           Some (ucast (drop_bit (unat (pos mod 64)) w AND 3))
         })"

section \<open>Edge-triple derivation\<close>

text \<open>
  The hash primitive is external (\<open>spooky.h\<close>): \<open>spooky_short\<close> and \<open>spooky_short_rehash\<close>
  are parameters of everything that calls them. A 256-bit hash value \<open>uint64_t h[4]\<close> is a
  quadruple.
\<close>

type_synonym hash4 = "u64 \<times> u64 \<times> u64 \<times> u64"

text \<open>
  \<open>triple_to_equation(triple, seed, num_variables, e)\<close>. The \<open>int num_variables\<close> is
  converted to \<open>unsigned long long\<close> for \<open>__builtin_clzll\<close> and to \<open>uint64_t\<close> for the
  product; the shifted product is converted to \<open>int\<close> when stored in \<open>e[i]\<close>.
\<close>

definition triple_to_equation ::
  "(hash4 \<Rightarrow> u64 \<Rightarrow> hash4) \<Rightarrow> hash4 \<Rightarrow> u64 \<Rightarrow> i32 \<Rightarrow> (i32 \<times> i32 \<times> i32) option" where
  "triple_to_equation spooky_short_rehash triple seed num_variables =
     (case spooky_short_rehash triple seed of (hash0, hash1, hash2, hash3) \<Rightarrow>
        do {
          shift \<leftarrow> clzll (scast num_variables);
          let mask = push_bit (nat (sint shift)) 1 - 1;
          Some (ucast (drop_bit (nat (sint shift)) ((hash0 AND mask) * scast num_variables)),
                ucast (drop_bit (nat (sint shift)) ((hash1 AND mask) * scast num_variables)),
                ucast (drop_bit (nat (sint shift)) ((hash2 AND mask) * scast num_variables)))
        })"

section \<open>The index and its evaluation\<close>

text \<open>
  Modelled from the spec: the declaration of \<open>struct mph\<close> is in \<open>mph.h\<close>, which is not
  part of the sources at hand. The fields are those \<open>mph.c\<close> uses; \<open>chunk_shift\<close> is the
  32-bit field the spec describes (a 64-bit value of the file truncated to 32 bits), every
  other field is the \<open>uint64_t\<close> that \<open>load_mph\<close> reads. The two arrays are the elements
  allocated behind the pointers.
\<close>

record mph =
  size_mph :: u64
  chunk_shift :: "32 word"
  global_seed :: u64
  edge_offset_and_seed_length :: u64
  edge_offset_and_seed :: "u64 list"
  array_length :: u64
  array :: "u64 list"

text \<open>
  \<open>const int chunk = h[0] >> mph->chunk_shift;\<close> The shift is defined for counts
  0..63 only, whether the field is read as signed or as unsigned.
\<close>

definition chunk_of :: "mph \<Rightarrow> u64 \<Rightarrow> i32 option" where
  "chunk_of m h0 = map_option ucast (shift_right h0 (uint (chunk_shift m)))"

text \<open>
  \<open>get_byte_array(mph, key, len)\<close>. The result is the \<open>int64_t\<close> with the bits of the
  returned word, read with \<open>sint\<close>.
\<close>

definition get_byte_array ::
  "(u8 list \<Rightarrow> u64 \<Rightarrow> u64 \<Rightarrow> hash4) \<Rightarrow> (hash4 \<Rightarrow> u64 \<Rightarrow> hash4) \<Rightarrow>
   mph \<Rightarrow> u8 list \<Rightarrow> u64 \<Rightarrow> u64 option" where
  "get_byte_array spooky_short spooky_short_rehash m key len =
     (let h = spooky_short key len (global_seed m)
      in do {
        chunk \<leftarrow> chunk_of m (fst h);
        edge_offset_seed \<leftarrow> array_get (edge_offset_and_seed m) (sint chunk);
        let chunk_offset = vertex_offset edge_offset_seed;
        next_entry \<leftarrow> array_get (edge_offset_and_seed m) (sint (chunk + 1));
        let num_variables = (ucast (vertex_offset next_entry - chunk_offset) :: i32);
        if num_variables = 0 then Some (- 1)
        else do {
          (e0, e1, e2) \<leftarrow>
            triple_to_equation spooky_short_rehash h (edge_offset_seed AND NOT OFFSET_MASK)
              num_variables;
          v0 \<leftarrow> get_2bit_value (array m) (scast e0 + chunk_offset);
          v1 \<leftarrow> get_2bit_value (array m) (scast e1 + chunk_offset);
          v2 \<leftarrow> get_2bit_value (array m) (scast e2 + chunk_offset);
          e \<leftarrow> array_get [e0, e1, e2] (sint (v0 + v1 + v2) smod 3);
          pairs \<leftarrow> count_nonzero_pairs chunk_offset (chunk_offset + scast e) (array m);
          Some ((edge_offset_seed AND OFFSET_MASK) + pairs)
        }
      })"

text \<open>
  The bytes of a \<open>uint64_t\<close> object in memory, first address first, and the value of such
  a sequence of bytes. The byte order is the machine's.
\<close>

datatype endian = Little_Endian | Big_Endian

definition object_bytes :: "endian \<Rightarrow> u64 \<Rightarrow> u8 list" where
  "object_bytes en x =
     (case en of
        Little_Endian \<Rightarrow> map (\<lambda>i. ucast (drop_bit (8 * i) x)) [0..<8]
      | Big_Endian \<Rightarrow> map (\<lambda>i. ucast (drop_bit (8 * i) x)) (rev [0..<8]))"


text \<open>\<open>get_uint64_t(mph, key)\<close>: the hash primitive reads the 8 bytes at \<open>&key\<close>.\<close>

definition get_uint64_t ::
  "endian \<Rightarrow> (u8 list \<Rightarrow> u64 \<Rightarrow> u64 \<Rightarrow> hash4) \<Rightarrow> (hash4 \<Rightarrow> u64 \<Rightarrow> hash4) \<Rightarrow>
   mph \<Rightarrow> u64 \<Rightarrow> u64 option" where
  "get_uint64_t en spooky_short spooky_short_rehash m key =
     (let h = spooky_short (object_bytes en key) 8 (global_seed m)
      in do {
        chunk \<leftarrow> chunk_of m (fst h);
        edge_offset_seed \<leftarrow> array_get (edge_offset_and_seed m) (sint chunk);
        let chunk_offset = vertex_offset edge_offset_seed;
        next_entry \<leftarrow> array_get (edge_offset_and_seed m) (sint (chunk + 1));
        let num_variables = (ucast (vertex_offset next_entry - chunk_offset) :: i32);
        if num_variables = 0 then Some (- 1)
        else do {
          (e0, e1, e2) \<leftarrow>
            triple_to_equation spooky_short_rehash h (edge_offset_seed AND NOT OFFSET_MASK)
              num_variables;
          v0 \<leftarrow> get_2bit_value (array m) (scast e0 + chunk_offset);
          v1 \<leftarrow> get_2bit_value (array m) (scast e1 + chunk_offset);
          v2 \<leftarrow> get_2bit_value (array m) (scast e2 + chunk_offset);
          e \<leftarrow> array_get [e0, e1, e2] (sint (v0 + v1 + v2) smod 3);
          pairs \<leftarrow> count_nonzero_pairs chunk_offset (chunk_offset + scast e) (array m);
          Some ((edge_offset_seed AND OFFSET_MASK) + pairs)
        }
      })"

text \<open>
  The statements that \<open>get_byte_array\<close> and \<open>get_uint64_t\<close> share after the call of the
  hash primitive (lines 69 to 76 and 82 to 89 of \<open>mph.c\<close>), as a function of the hash
  value. It serves to state facts about both entry points at once.
\<close>

definition evaluate_hash :: "(hash4 \<Rightarrow> u64 \<Rightarrow> hash4) \<Rightarrow> mph \<Rightarrow> hash4 \<Rightarrow> u64 option" where
  "evaluate_hash spooky_short_rehash m h =
     do {
       chunk \<leftarrow> chunk_of m (fst h);
       edge_offset_seed \<leftarrow> array_get (edge_offset_and_seed m) (sint chunk);
       let chunk_offset = vertex_offset edge_offset_seed;
       next_entry \<leftarrow> array_get (edge_offset_and_seed m) (sint (chunk + 1));
       let num_variables = (ucast (vertex_offset next_entry - chunk_offset) :: i32);
       if num_variables = 0 then Some (- 1)
       else do {
         (e0, e1, e2) \<leftarrow>
           triple_to_equation spooky_short_rehash h (edge_offset_seed AND NOT OFFSET_MASK)
             num_variables;
         v0 \<leftarrow> get_2bit_value (array m) (scast e0 + chunk_offset);
         v1 \<leftarrow> get_2bit_value (array m) (scast e1 + chunk_offset);
         v2 \<leftarrow> get_2bit_value (array m) (scast e2 + chunk_offset);
         e \<leftarrow> array_get [e0, e1, e2] (sint (v0 + v1 + v2) smod 3);
         pairs \<leftarrow> count_nonzero_pairs chunk_offset (chunk_offset + scast e) (array m);
         Some ((edge_offset_seed AND OFFSET_MASK) + pairs)
       }
     }"

section \<open>Loader\<close>








section \<open>What the specification says\<close>

text \<open>
  The 2-bit group \<open>j\<close> of a 64-bit word, bits \<open>2j\<close> and \<open>2j + 1\<close>, is not \<open>0b00\<close>:
\<close>

definition pair_set :: "u64 \<Rightarrow> nat \<Rightarrow> bool" where
  "pair_set w j \<longleftrightarrow> bit w (2 * j) \<or> bit w (2 * j + 1)"

text \<open>
  The label of vertex \<open>i\<close> is not zero: 32 groups to a word, low to high. The rank of the
  specification counts these vertices in \<open>[s, e)\<close>.
\<close>

definition group_nonzero :: "u64 list \<Rightarrow> nat \<Rightarrow> bool" where
  "group_nonzero labels i \<longleftrightarrow> pair_set (labels ! (i div 32)) (i mod 32)"

text \<open>The 2-bit label of vertex \<open>i\<close>, a number in 0..3:\<close>

definition label :: "u64 list \<Rightarrow> nat \<Rightarrow> nat" where
  "label labels i = unat (labels ! (i div 32)) div 4 ^ (i mod 32) mod 4"

definition nonzero_groups :: "u64 list \<Rightarrow> nat \<Rightarrow> nat \<Rightarrow> nat" where
  "nonzero_groups labels s e = length (filter (group_nonzero labels) [s..<e])"

text \<open>
  The vertex-offset decoder of the specification: the low 56 bits of the entry, times
  \<open>R = floor(1.10 * 256)\<close>, divided by 256, in unbounded arithmetic.
\<close>

definition spec_field :: "u64 \<Rightarrow> nat" where
  "spec_field entry = unat entry mod 2 ^ 56"

definition spec_R :: nat where
  "spec_R = (110 * 256) div 100"

definition spec_vertex_offset :: "u64 \<Rightarrow> nat" where
  "spec_vertex_offset entry = spec_field entry * spec_R div 256"

text \<open>The chunk selection of the specification: \<open>chunk = h[0] >> chunk_shift\<close>, a 64-bit value.\<close>

definition spec_chunk :: "mph \<Rightarrow> u64 \<Rightarrow> nat" where
  "spec_chunk m h0 = unat h0 div 2 ^ unat (chunk_shift m)"

text \<open>
  The number of significant bits of a number, and the vertex candidate of the
  specification: \<open>shift = 64 - bit_length(num_variables)\<close>, \<open>mask = 2^shift - 1\<close>,
  \<open>vertex = ((word & mask) * num_variables) >> shift\<close>, in unbounded arithmetic.
\<close>

fun bit_length :: "nat \<Rightarrow> nat" where
  "bit_length n = (if n = 0 then 0 else Suc (bit_length (n div 2)))"

declare bit_length.simps [simp del]

definition spec_vertex :: "nat \<Rightarrow> u64 \<Rightarrow> nat" where
  "spec_vertex n word =
     (let shift = 64 - bit_length n; mask = 2 ^ shift - 1
      in drop_bit shift ((unat word AND mask) * n))"







section \<open>Concrete inputs\<close>

text \<open>
  A label array of \<open>2^31 + 1\<close> words (16 GiB): vertex 0 has label 1, every other vertex
  label 0.
\<close>

definition huge_labels :: "u64 list" where
  "huge_labels = 1 # replicate (2 ^ 31) 0"

text \<open>
  A stand-in for the external hash primitive: the first byte of the key decides the chunk
  (bit 63 of \<open>h[0]\<close>) and the rehashed words.
\<close>

definition toy_short :: "u8 list \<Rightarrow> u64 \<Rightarrow> u64 \<Rightarrow> hash4" where
  "toy_short key len seed =
     (case key of [] \<Rightarrow> (0, 0, seed, len) | b # bs \<Rightarrow> (push_bit 62 (ucast b), ucast b, seed, len))"

definition toy_rehash :: "hash4 \<Rightarrow> u64 \<Rightarrow> hash4" where
  "toy_rehash h seed = (case h of (h0, h1, h2, h3) \<Rightarrow> (0, push_bit 61 h1, push_bit 61 h1, seed))"

text \<open>
  An index over the three one-byte keys \<open>[0]\<close>, \<open>[1]\<close>, \<open>[2]\<close>: two chunks, selected by bit
  63; chunk 0 holds two keys on the vertices 0 and 1, chunk 1 one key on vertex 2; the
  directory entries carry the local seeds 5 and 9 in their high bytes; the labels of the
  vertices 0, 1, 2 are 1, 2, 3.
\<close>

definition example_mph :: mph where
  "example_mph =
     \<lparr> size_mph = 3, chunk_shift = 63, global_seed = 7,
       edge_offset_and_seed_length = 3,
       edge_offset_and_seed = [0x0500000000000000, 0x0900000000000002, 3],
       array_length = 1, array = [57] \<rparr>"

definition example_keys :: "u8 list set" where
  "example_keys = {[0], [1], [2]}"







text \<open>
  The directory \<open>[{offset 0, seed 5}, {offset 0, seed 9}]\<close>: chunk 0 has no variables.
\<close>

definition empty_chunk_mph :: mph where
  "empty_chunk_mph =
     \<lparr> size_mph = 0, chunk_shift = 63, global_seed = 7,
       edge_offset_and_seed_length = 2,
       edge_offset_and_seed = [0x0500000000000000, 0x0900000000000000],
       array_length = 0, array = [] \<rparr>"

text \<open>
  A directory whose chunk 1 spans \<open>2^32\<close> vertices: the offsets 1 and 3912852769 decode to
  the vertex offsets 1 and \<open>2^32 + 1\<close>.
\<close>

definition wide_chunk_mph :: mph where
  "wide_chunk_mph =
     \<lparr> size_mph = 3912852769, chunk_shift = 63, global_seed = 7,
       edge_offset_and_seed_length = 3,
       edge_offset_and_seed = [0, 1, 3912852769],
       array_length = 0, array = [] \<rparr>"

section \<open>The rank operator counts the non-zero groups\<close>


lemma alt_step: "(4 ^ Suc k - 1) div 3 = 1 + 4 * ((4 ^ k - 1) div (3::nat))"
proof -
  have "(3::nat) dvd 4 ^ k - 1"
    by (induction k) (auto simp: dvd_def, presburger)
  then obtain q :: nat where q: "4 ^ k - 1 = 3 * q" by (auto simp: dvd_def)
  then have "(4::nat) ^ k = 3 * q + 1"
    by (metis add.commute le_add_diff_inverse one_le_numeral one_le_power)
  then have "(4::nat) ^ Suc k - 1 = 3 * (1 + 4 * q)" by simp
  then show ?thesis using q by simp
qed

lemma bit_alternating: "bit ((4 ^ k - 1) div 3 :: nat) n \<longleftrightarrow> n < 2 * k \<and> even n"
proof (induction k arbitrary: n)
  case 0
  then show ?case by simp
next
  case (Suc k)
  let ?a = "(4 ^ k - 1) div 3 :: nat"
  show ?case
  proof (cases n)
    case 0
    then show ?thesis by (simp only: alt_step bit_0) simp
  next
    case (Suc m)
    note n = this
    show ?thesis
    proof (cases m)
      case 0
      have "(1 + 4 * ?a) div 2 = 2 * ?a" by presburger
      with n 0 show ?thesis by (simp only: alt_step bit_Suc bit_0) simp
    next
      case (Suc j)
      have "(1 + 4 * ?a) div 2 div 2 = ?a" by presburger
      with n Suc show ?thesis using Suc.IH [of j]
        by (simp only: alt_step bit_Suc) simp
    qed
  qed
qed

lemma bit_5555_int: "bit (0x5555555555555555 :: int) n \<longleftrightarrow> n < 64 \<and> even n"
proof -
  have "(0x5555555555555555 :: int) = of_nat ((4 ^ 32 - 1) div 3)" by simp
  then show ?thesis
    by (simp only: bit_of_nat_iff_bit bit_alternating) auto
qed

lemma length_filter_upt_card: "length (filter P [a..<b]) = card {i. a \<le> i \<and> i < b \<and> P i}"
proof -
  have "card {i. a \<le> i \<and> i < b \<and> P i} = card (set (filter P [a..<b]))"
    by (rule arg_cong [where f = card]) auto
  also have "\<dots> = length (filter P [a..<b])"
    by (rule distinct_card) simp
  finally show ?thesis by simp
qed

lemma fold_bits:
  "length (filter (bit ((x OR drop_bit 1 x) AND (0x5555555555555555 :: u64))) [0..<64])
   = length (filter (pair_set x) [0..<32])"
proof -
  have "{i. 0 \<le> i \<and> i < 64 \<and> bit ((x OR drop_bit 1 x) AND (0x5555555555555555 :: u64)) i}
        = (\<lambda>j. 2 * j) ` {j. 0 \<le> j \<and> j < 32 \<and> pair_set x j}" (is "?L = ?f ` ?R")
  proof (intro set_eqI iffI)
    fix i assume "i \<in> ?L"
    then have i: "i < 64" "even i" "bit x i \<or> bit x (Suc i)"
      by (auto simp: bit_and_iff bit_or_iff bit_drop_bit_eq bit_5555_int)
    then obtain j where j: "i = 2 * j" by (auto elim: evenE)
    with i show "i \<in> ?f ` ?R" by (auto simp: pair_set_def)
  next
    fix i assume "i \<in> ?f ` ?R"
    then show "i \<in> ?L"
      by (auto simp: bit_and_iff bit_or_iff bit_drop_bit_eq bit_5555_int pair_set_def)
  qed
  moreover have "inj_on ?f ?R" by (simp add: inj_on_def)
  ultimately show ?thesis
    by (simp only: length_filter_upt_card card_image)
qed

lemma sint_of_nat_i32: "n < 2 ^ 31 \<Longrightarrow> sint (of_nat n :: i32) = int n"
  by (simp add: signed_of_nat signed_take_bit_int_eq_self)

lemma scast_of_nat_i32: "n < 2 ^ 31 \<Longrightarrow> (scast (of_nat n :: i32) :: u64) = of_nat n"
  by (simp add: signed_of_nat signed_take_bit_int_eq_self)

lemma sint_ucast_small: "unat (w :: u64) < 2 ^ 31 \<Longrightarrow> sint (ucast w :: i32) = int (unat w)" 
proof -
  assume a: "unat w < 2 ^ 31"
  have "(ucast w :: i32) = of_nat (unat w)" by simp
  then show ?thesis using a by (simp only: sint_of_nat_i32)
qed

lemma length_filter_le64: "length (filter P [0..<64]) \<le> 64"
  using length_filter_le [of P "[0..<64]"] by simp

lemma scast_count_word:
  "(scast (count_nonzero_pairs_word x) :: u64) = of_nat (length (filter (pair_set x) [0..<32]))"
proof -
  have "length (filter (pair_set x) [0..<32]) \<le> 32"
    using length_filter_le [of "pair_set x" "[0..<32]"] by simp
  then have "length (filter (pair_set x) [0..<32]) < 2 ^ 31" by simp
  then show ?thesis
    unfolding count_nonzero_pairs_word_def popcountll_def fold_bits
    by (rule scast_of_nat_i32)
qed



lemma push1_minus1: "push_bit n (1::u64) - 1 = mask n"
  by (simp add: mask_eq_exp_minus_1)

lemma pair_set_window:
  "pair_set (drop_bit (2 * so) (w AND mask (2 * eo))) j \<longleftrightarrow> so + j < eo \<and> pair_set w (so + j)"
  by (auto simp: pair_set_def bit_drop_bit_eq bit_and_iff bit_mask_iff dest: bit_imp_le_length)

lemma count_window:
  assumes "eo \<le> 32"
  shows "length (filter (pair_set (drop_bit (2 * so) (w AND mask (2 * eo)))) [0..<32])
         = length (filter (pair_set w) [so..<eo])"
proof -
  have "{i. so \<le> i \<and> i < eo \<and> pair_set w i}
        = (\<lambda>j. so + j) ` {j. 0 \<le> j \<and> j < 32 \<and> so + j < eo \<and> pair_set w (so + j)}" (is "?L = ?f ` ?R")
  proof (intro set_eqI iffI)
    fix i assume "i \<in> ?L"
    then have "i - so \<in> ?R" "i = so + (i - so)" using assms by auto
    then show "i \<in> ?f ` ?R" by blast
  next
    fix i assume "i \<in> ?f ` ?R"
    then show "i \<in> ?L" by auto
  qed
  moreover have "inj_on ?f ?R" by (simp add: inj_on_def)
  ultimately have "card ?L = card ?R" by (simp only: card_image)
  then show ?thesis
    by (simp only: length_filter_upt_card pair_set_window)
qed

lemma group_nonzero_block: "j < 32 \<Longrightarrow> group_nonzero labels (32 * b + j) = pair_set (labels ! b) j"
  by (simp add: group_nonzero_def)

lemma count_block:
  assumes "eo \<le> 32"
  shows "length (filter (pair_set (labels ! b)) [so..<eo]) = nonzero_groups labels (32 * b + so) (32 * b + eo)"
proof -
  have "{i. 32 * b + so \<le> i \<and> i < 32 * b + eo \<and> group_nonzero labels i}
        = (\<lambda>j. 32 * b + j) ` {j. so \<le> j \<and> j < eo \<and> pair_set (labels ! b) j}" (is "?L = ?f ` ?R")
  proof (intro set_eqI iffI)
    fix i assume i: "i \<in> ?L"
    then have "i - 32 * b < 32" using assms by auto
    then have "group_nonzero labels (32 * b + (i - 32 * b)) = pair_set (labels ! b) (i - 32 * b)"
      by (rule group_nonzero_block)
    with i have "i - 32 * b \<in> ?R" "i = 32 * b + (i - 32 * b)" by auto
    then show "i \<in> ?f ` ?R" by blast
  next
    fix i assume "i \<in> ?f ` ?R"
    then obtain j where j: "i = 32 * b + j" "so \<le> j" "j < eo" "pair_set (labels ! b) j" by auto
    then have "j < 32" using assms by simp
    with j show "i \<in> ?L" by (simp add: group_nonzero_block)
  qed
  moreover have "inj_on ?f ?R" by (simp add: inj_on_def)
  ultimately have "card ?L = card ?R" by (simp only: card_image)
  then show ?thesis
    by (simp only: nonzero_groups_def length_filter_upt_card)
qed

lemma nonzero_groups_append:
  "a \<le> b \<Longrightarrow> b \<le> c \<Longrightarrow> nonzero_groups labels a b + nonzero_groups labels b c = nonzero_groups labels a c"
proof -
  assume "a \<le> b" "b \<le> c"
  then have "[a..<c] = [a..<b] @ [b..<c]"
    by (metis le_Suc_ex upt_add_eq_append)
  then show ?thesis by (simp add: nonzero_groups_def)
qed

lemma nonzero_groups_le: "nonzero_groups labels a b \<le> b - a"
  unfolding nonzero_groups_def using length_filter_le [of "group_nonzero labels" "[a..<b]"] by simp

lemma nonzero_groups_empty [simp]: "nonzero_groups labels a a = 0"
  by (simp add: nonzero_groups_def)

lemma count_word_window:
  assumes "eo \<le> 32" "b < length labels"
  shows "(scast (count_nonzero_pairs_word (drop_bit (2 * so) (labels ! b AND mask (2 * eo)))) :: u64)
         = of_nat (nonzero_groups labels (32 * b + so) (32 * b + eo))"
  using assms by (simp only: scast_count_word count_window count_block)

lemma mask64: "(w :: u64) AND mask 64 = w"
  by (rule bit_word_eqI) (simp add: bit_and_iff bit_mask_iff)




lemma sint_succ: 
  assumes "(b::i32) <s e" shows "sint (b + 1) = sint b + 1"
proof -
  have "sint e < 2 ^ 31"
    using sint_lt [of e] by simp
  with assms have small: "sint b + 1 < 2 ^ 31" and low: "- (2 ^ 31) \<le> sint b + 1"
    using sint_ge [of b] by (simp_all add: word_sless_alt)
  have "sint (b + 1) = signed_take_bit 31 (sint b + 1)"
    by (simp add: sint_word_ariths)
  also have "\<dots> = sint b + 1"
    using small low by (simp add: signed_take_bit_int_eq_self)
  finally show ?thesis .
qed

lemma array_get_in: "0 \<le> i \<Longrightarrow> nat i < length a \<Longrightarrow> array_get a i = Some (a ! nat i)"
  by (simp add: array_get_def)

lemma count_word_full:
  assumes "b < length labels"
  shows "(scast (count_nonzero_pairs_word (labels ! b)) :: u64)
         = of_nat (nonzero_groups labels (32 * b) (32 * b + 32))"
  using count_word_window [of 32 b labels 0] assms by (simp add: mask64)

lemma count_blocks_spec:
  "0 \<le> sint b \<Longrightarrow> sint b \<le> sint e \<Longrightarrow> nat (sint e) \<le> length labels \<Longrightarrow>
   count_blocks labels b e p
   = Some (e, p + of_nat (nonzero_groups labels (32 * nat (sint b)) (32 * nat (sint e))))"
proof (induction labels b e p rule: count_blocks.induct)
  case (1 array block end_block pairs)
  show ?case
  proof (cases "block <s end_block")
    case True
    then have lt: "sint block < sint end_block" by (simp add: word_sless_alt)
    have succ: "sint (block + 1) = sint block + 1" using True by (rule sint_succ)
    have inb: "nat (sint block) < length array" using lt "1.prems" by linarith
    then have get: "array_get array (sint block) = Some (array ! nat (sint block))"
      using "1.prems" by (simp add: array_get_in)
    have nsucc: "nat (sint block + 1) = nat (sint block) + 1" using "1.prems" by simp
    have IH: "count_blocks array (block + 1) end_block (pairs + scast (count_nonzero_pairs_word (array ! nat (sint block))))
        = Some (end_block, pairs + scast (count_nonzero_pairs_word (array ! nat (sint block)))
             + of_nat (nonzero_groups array (32 * nat (sint (block + 1))) (32 * nat (sint end_block))))"
      using "1.IH" [OF True get] "1.prems" lt succ by simp
    have split: "nonzero_groups array (32 * nat (sint block)) (32 * nat (sint block) + 32)
          + nonzero_groups array (32 * nat (sint block) + 32) (32 * nat (sint end_block))
          = nonzero_groups array (32 * nat (sint block)) (32 * nat (sint end_block))"
      using lt "1.prems" by (intro nonzero_groups_append) simp_all
    have step: "count_blocks array block end_block pairs
          = count_blocks array (block + 1) end_block (pairs + scast (count_nonzero_pairs_word (array ! nat (sint block))))"
      using True get by (subst count_blocks.simps) simp
    have nxt: "32 * nat (sint (block + 1)) = 32 * nat (sint block) + 32"
      using succ nsucc by simp
    have "pairs + scast (count_nonzero_pairs_word (array ! nat (sint block)))
             + of_nat (nonzero_groups array (32 * nat (sint (block + 1))) (32 * nat (sint end_block)))
          = pairs + of_nat (nonzero_groups array (32 * nat (sint block)) (32 * nat (sint block) + 32)
              + nonzero_groups array (32 * nat (sint block) + 32) (32 * nat (sint end_block)))"
      by (simp only: count_word_full [OF inb] nxt of_nat_add add.assoc)
    also have "\<dots> = pairs + of_nat (nonzero_groups array (32 * nat (sint block)) (32 * nat (sint end_block)))"
      by (simp only: split)
    finally show ?thesis
      by (simp only: step IH)
  next
    case False
    then have "sint block = sint end_block" using "1.prems" by (simp add: word_sless_alt)
    then have "block = end_block" by (rule signed_word_eqI)
    then show ?thesis using False by (subst count_blocks.simps) simp
  qed
qed




lemma unat_div32: "unat ((x::u64) div 32) = unat x div 32"
  by (simp add: unat_div)

lemma unat_mod32: "unat ((x::u64) mod 32) = unat x mod 32"
  by (simp add: unat_mod)

lemma block_conv: "unat (x::u64) div 32 < 2 ^ 31 \<Longrightarrow> sint (ucast (x div 32) :: i32) = int (unat x div 32)"
  using sint_ucast_small [of "x div 32"] by (simp only: unat_div32)

lemma offset_of_nat: "(ucast ((x::u64) mod 32) :: i32) = of_nat (unat x mod 32)"
proof -
  have "(ucast (x mod 32) :: i32) = of_nat (unat (x mod 32))" by simp
  then show ?thesis by (simp only: unat_mod32)
qed

lemma offset_conv: "nat (sint ((ucast ((x::u64) mod 32) :: i32) * 2)) = 2 * (unat x mod 32)"
proof -
  have "(ucast (x mod 32) :: i32) * 2 = of_nat (2 * (unat x mod 32))"
    by (simp only: offset_of_nat) simp
  moreover have "2 * (unat x mod 32) < (2::nat) ^ 31"
    by (rule less_trans [of _ 64]) simp_all
  ultimately show ?thesis by (simp only: sint_of_nat_i32 nat_int)
qed

lemma offset_zero: "(ucast ((x::u64) mod 32) :: i32) = 0 \<longleftrightarrow> unat x mod 32 = 0"
proof -
  have "unat x mod 32 < 2 ^ 31" by (rule less_trans [of _ 32]) simp_all
  then have "sint (of_nat (unat x mod 32) :: i32) = int (unat x mod 32)" by (rule sint_of_nat_i32)
  then have "sint (ucast (x mod 32) :: i32) = int (unat x mod 32)"
    by (simp only: offset_of_nat)
  moreover have "(ucast (x mod 32) :: i32) = 0 \<longleftrightarrow> sint (ucast (x mod 32) :: i32) = 0"
    by (simp only: signed_eq_0_iff)
  ultimately show ?thesis by simp
qed




lemma count_nonzero_pairs_spec:
  fixes start endp :: u64
  assumes le: "unat start \<le> unat endp"
    and inside: "unat endp \<le> 32 * length labels" "unat start < 32 * length labels"
    and fits: "unat endp div 32 < 2 ^ 31"
  shows "count_nonzero_pairs start endp labels
         = Some (of_nat (nonzero_groups labels (unat start) (unat endp)))"
proof -
  define s e where "s = unat start" and "e = unat endp"
  define sb eb so eo where "sb = s div 32" and "eb = e div 32" and "so = s mod 32" and "eo = e mod 32"
  have s: "s = 32 * sb + so" and e: "e = 32 * eb + eo" and so: "so < 32" and eo: "eo < 32"
    by (simp_all add: sb_def eb_def so_def eo_def)
  have sb_le: "sb \<le> eb" using le by (simp add: sb_def eb_def s_def e_def div_le_mono)
  have eb_fit: "eb < 2 ^ 31" using fits by (simp add: eb_def e_def)
  then have sb_fit: "sb < 2 ^ 31" using sb_le by simp
  have sb_in: "sb < length labels" using inside by (simp add: sb_def s_def) 
  have eb_in: "eb \<le> length labels" using inside by (simp add: eb_def e_def) 
  have block: "sint (ucast (start div 32) :: i32) = int sb"
    using sb_fit by (simp only: sb_def s_def block_conv)
  have end_block: "sint (ucast (endp div 32) :: i32) = int eb"
    using eb_fit by (simp only: eb_def e_def block_conv)
  have so_sh: "nat (sint ((ucast (start mod 32) :: i32) * 2)) = 2 * so"
    by (simp only: offset_conv so_def s_def)
  have eo_sh: "nat (sint ((ucast (endp mod 32) :: i32) * 2)) = 2 * eo"
    by (simp only: offset_conv eo_def e_def)
  have so0: "(ucast (start mod 32) :: i32) = 0 \<longleftrightarrow> so = 0"
    by (simp only: offset_zero so_def s_def)
  have eo0: "(ucast (endp mod 32) :: i32) = 0 \<longleftrightarrow> eo = 0"
    by (simp only: offset_zero eo_def e_def)
  have blocks_eq: "(ucast (start div 32) :: i32) = ucast (endp div 32) \<longleftrightarrow> sb = eb"
  proof -
    have "(ucast (start div 32) :: i32) = ucast (endp div 32)
       \<longleftrightarrow> sint (ucast (start div 32) :: i32) = sint (ucast (endp div 32) :: i32)"
      by (auto intro: signed_word_eqI)
    then show ?thesis by (simp only: block end_block of_nat_eq_iff)
  qed
  have get_sb: "array_get labels (int sb) = Some (labels ! sb)"
    using sb_in by (simp add: array_get_def)
  show ?thesis
  proof (cases "sb = eb")
    case True
    have c: "((ucast (start div 32) :: i32) = ucast (endp div 32)) = True"
      using True blocks_eq by simp
    have "(scast (count_nonzero_pairs_word (drop_bit (2 * so) (labels ! sb AND mask (2 * eo)))) :: u64)
          = of_nat (nonzero_groups labels (32 * sb + so) (32 * sb + eo))"
      using eo sb_in by (intro count_word_window) simp_all
    then have r: "(scast (count_nonzero_pairs_word (drop_bit (2 * so) (labels ! sb AND mask (2 * eo)))) :: u64)
          = of_nat (nonzero_groups labels (unat start) (unat endp))"
      using s e True by (simp only: s_def e_def)
    have "count_nonzero_pairs start endp labels
          = Some (scast (count_nonzero_pairs_word (drop_bit (2 * so) (labels ! sb AND mask (2 * eo)))))"
      by (simp only: count_nonzero_pairs_def Let_def c block get_sb so_sh eo_sh push1_minus1
            Option.bind.bind_lunit if_True)
    then show ?thesis by (simp only: r)
  next
    case False
    then have lt: "sb < eb" using sb_le by simp
    have c: "((ucast (start div 32) :: i32) = ucast (endp div 32)) = False"
      using False blocks_eq by simp
    define block1 :: i32 and pairs1 :: u64 where
      "block1 = (if so \<noteq> 0 then ucast (start div 32) + 1 else ucast (start div 32))"
      and "pairs1 = (if so \<noteq> 0 then scast (count_nonzero_pairs_word (drop_bit (2 * so) (labels ! sb))) else 0)"
    define b1 where "b1 = (if so \<noteq> 0 then sb + 1 else sb)"
    have b1: "sint block1 = int b1"
    proof (cases "so = 0")
      case True then show ?thesis by (simp add: block1_def b1_def block)
    next
      case False
      have "(ucast (start div 32) :: i32) <s ucast (endp div 32)"
        using lt by (simp add: word_sless_alt block end_block)
      then have "sint ((ucast (start div 32) :: i32) + 1) = sint (ucast (start div 32) :: i32) + 1"
        by (rule sint_succ)
      with False show ?thesis by (simp add: block1_def b1_def block)
    qed
    have b1_bounds: "s \<le> 32 * b1" "b1 \<le> eb" using lt s so by (auto simp: b1_def)
    have p1: "pairs1 = of_nat (nonzero_groups labels s (32 * b1))"
    proof (cases "so = 0")
      case True then show ?thesis using s by (simp add: pairs1_def b1_def)
    next
      case False
      have w: "(scast (count_nonzero_pairs_word (drop_bit (2 * so) (labels ! sb AND mask (2 * 32)))) :: u64)
          = of_nat (nonzero_groups labels (32 * sb + so) (32 * sb + 32))"
        using sb_in by (intro count_word_window) simp_all
      have m: "labels ! sb AND mask (2 * 32) = labels ! sb"
        using mask64 [of "labels ! sb"] by simp
      have b: "32 * b1 = 32 * sb + 32" using False by (simp add: b1_def)
      have "pairs1 = scast (count_nonzero_pairs_word (drop_bit (2 * so) (labels ! sb)))"
        using False by (simp add: pairs1_def)
      also have "\<dots> = of_nat (nonzero_groups labels (32 * sb + so) (32 * sb + 32))"
        using w by (simp only: m)
      finally show ?thesis by (simp only: b s)
    qed
    have first: "(if (ucast (start mod 32) :: i32) \<noteq> 0 then
                  do {
                    w \<leftarrow> array_get labels (sint (ucast (start div 32) :: i32));
                    Some (ucast (start div 32) + 1,
                      scast (count_nonzero_pairs_word (drop_bit (nat (sint ((ucast (start mod 32) :: i32) * 2))) w)))
                  }
                else Some (ucast (start div 32), 0)) = Some (block1, pairs1)"
    proof (cases "so = 0")
      case True
      then have z: "((ucast (start mod 32) :: i32) \<noteq> 0) = False" using so0 by simp
      show ?thesis using True by (simp only: z if_False block1_def pairs1_def) simp
    next
      case False
      then have z: "((ucast (start mod 32) :: i32) \<noteq> 0) = True" using so0 by simp
      show ?thesis using False
        by (simp only: z if_True block get_sb so_sh Option.bind.bind_lunit block1_def pairs1_def) simp
    qed
    have loop: "count_blocks labels block1 (ucast (endp div 32)) pairs1
       = Some (ucast (endp div 32), pairs1 + of_nat (nonzero_groups labels (32 * b1) (32 * eb)))"
      using count_blocks_spec [of block1 "ucast (endp div 32)" labels pairs1] b1 end_block b1_bounds eb_in
      by simp
    have total1: "pairs1 + of_nat (nonzero_groups labels (32 * b1) (32 * eb))
        = (of_nat (nonzero_groups labels s (32 * eb)) :: u64)"
      using nonzero_groups_append [of s "32 * b1" "32 * eb" labels] b1_bounds
      by (simp add: p1 flip: of_nat_add)
    show ?thesis
    proof (cases "eo = 0")
      case True
      then have "e = 32 * eb" using e by simp
      then have r: "(of_nat (nonzero_groups labels s (32 * eb)) :: u64)
          = of_nat (nonzero_groups labels (unat start) (unat endp))"
        by (simp only: s_def e_def)
      have "count_nonzero_pairs start endp labels = Some (of_nat (nonzero_groups labels s (32 * eb)))"
        using True
        by (simp only: count_nonzero_pairs_def Let_def c first loop total1 eo0
              Option.bind.bind_lunit if_True if_False simp_thms prod.case)
      then show ?thesis by (simp only: r)
    next
      case eo_pos: False
      then have eb_lt: "eb < length labels" using inside e by (simp add: e_def)
      then have get_eb: "array_get labels (int eb) = Some (labels ! eb)"
        by (simp add: array_get_def)
      have "(scast (count_nonzero_pairs_word (drop_bit (2 * 0) (labels ! eb AND mask (2 * eo)))) :: u64)
          = of_nat (nonzero_groups labels (32 * eb + 0) (32 * eb + eo))"
        using eo eb_lt by (intro count_word_window) simp_all
      then have last: "(scast (count_nonzero_pairs_word (labels ! eb AND mask (2 * eo))) :: u64)
          = of_nat (nonzero_groups labels (32 * eb) e)"
        using e by simp
      have "s \<le> 32 * eb" using b1_bounds by simp
      then have total: "(of_nat (nonzero_groups labels s (32 * eb)) :: u64) + of_nat (nonzero_groups labels (32 * eb) e)
          = of_nat (nonzero_groups labels s e)"
        using nonzero_groups_append [of s "32 * eb" e labels] e
        by (simp flip: of_nat_add)
      have "count_nonzero_pairs start endp labels
            = Some (of_nat (nonzero_groups labels s (32 * eb)) + of_nat (nonzero_groups labels (32 * eb) e))"
        using eo_pos
        by (simp only: count_nonzero_pairs_def Let_def c first loop total1 eo0 end_block get_eb eo_sh
              push1_minus1 last Option.bind.bind_lunit if_True if_False simp_thms prod.case)
      then show ?thesis using total unfolding s_def e_def by simp
    qed
  qed
qed




lemma length_huge_labels: "length huge_labels = 2 ^ 31 + 1"
  by (simp add: huge_labels_def)

lemma pair_set_1: "pair_set 1 j \<longleftrightarrow> j = 0"
  by (auto simp: pair_set_def bit_1_iff)

lemma pair_set_0: "\<not> pair_set 0 j"
  by (simp add: pair_set_def)

lemma group_nonzero_huge: "i < 2 ^ 36 + 32 \<Longrightarrow> group_nonzero huge_labels i \<longleftrightarrow> i = 0"
proof -
  assume i: "i < 2 ^ 36 + 32"
  show ?thesis
  proof (cases "i div 32")
    case 0
    then have "i mod 32 = i" by simp
    with 0 show ?thesis by (simp add: group_nonzero_def huge_labels_def pair_set_1)
  next
    case (Suc k)
    have "i div 32 < 2 ^ 31 + 1" using i by simp
    with Suc have "k < 2 ^ 31" by simp
    moreover have "i \<noteq> 0" using Suc by auto
    ultimately show ?thesis using Suc by (simp add: group_nonzero_def huge_labels_def pair_set_0)
  qed
qed

lemma nonzero_groups_huge:
  assumes "e \<le> 2 ^ 36 + 32"
  shows "nonzero_groups huge_labels s e = (if s = 0 \<and> 0 < e then 1 else 0)"
proof -
  have "{i. s \<le> i \<and> i < e \<and> group_nonzero huge_labels i} = {i. s \<le> i \<and> i < e \<and> i = 0}"
    using assms by (auto simp: group_nonzero_huge)
  also have "\<dots> = (if s = 0 \<and> 0 < e then {0} else {})" by auto
  finally show ?thesis
    by (simp add: nonzero_groups_def length_filter_upt_card)
qed

lemma count_blocks_done: "\<not> b <s e \<Longrightarrow> count_blocks labels b e p = Some (b, p)"
  by (subst count_blocks.simps) simp

lemma cnp_0_huge: "count_nonzero_pairs 0 (2 ^ 36) labels = Some 0"
  by (simp add: count_nonzero_pairs_def count_blocks_done word_sless_alt)


lemma cnp_32_huge: "count_nonzero_pairs 32 (2 ^ 36) labels = Some 0"
  by (simp add: count_nonzero_pairs_def count_blocks_done word_sless_alt)



lemma cnp_0_32_huge: "count_nonzero_pairs 0 32 huge_labels = Some 1"
proof -
  have "count_nonzero_pairs 0 32 huge_labels
        = Some (of_nat (nonzero_groups huge_labels (unat (0 :: u64)) (unat (32 :: u64))))"
    by (rule count_nonzero_pairs_spec) (simp_all add: length_huge_labels)
  then show ?thesis by (simp add: nonzero_groups_huge)
qed

text \<open>
  C2, as stated for every array, fails: the block indices are \<open>int\<close>s. In the array
  \<open>huge_labels\<close> the end index \<open>2^36\<close> lies inside the array, its block index \<open>2^31\<close> does
  not fit an \<open>int\<close>, and the rank of \<open>[0, 2^36)\<close> comes out as 0 where one label is not zero.
\<close>

theorem count_nonzero_pairs_huge_counterexample:
  "(0 :: u64) \<le> 2 ^ 36 \<and> unat (2 ^ 36 :: u64) \<le> 32 * length huge_labels
   \<and> count_nonzero_pairs 0 (2 ^ 36) huge_labels = Some 0
   \<and> nonzero_groups huge_labels (unat (0 :: u64)) (unat (2 ^ 36 :: u64)) = 1"
  using cnp_0_huge [of huge_labels] by (simp add: nonzero_groups_huge length_huge_labels)

text \<open>
  C2, amended: for every label array and every pair of vertex indices \<open>start \<le> end\<close> with
  \<open>end\<close> at most the number of vertices of the array, \<open>start\<close> inside the array and
  \<open>end < 2^36\<close> (so that the block index \<open>end / 32\<close> fits an \<open>int\<close>),
  \<open>count_nonzero_pairs(start, end, labels)\<close> returns the number of positions in
  \<open>[start, end)\<close> whose 2-bit group is not \<open>0b00\<close>.
\<close>

theorem count_nonzero_pairs_counts:
  fixes start endp :: u64
  assumes "start \<le> endp" and "unat endp \<le> 32 * length labels"
    and "unat start < 32 * length labels" and "unat endp < 2 ^ 36"
  shows "\<exists>r. count_nonzero_pairs start endp labels = Some r
             \<and> unat r = nonzero_groups labels (unat start) (unat endp)"
proof -
  have le: "unat start \<le> unat endp" using assms(1) by (simp add: word_le_nat_alt)
  have "unat endp div 32 < 2 ^ 31" using assms(4) by simp
  then have r: "count_nonzero_pairs start endp labels
        = Some (of_nat (nonzero_groups labels (unat start) (unat endp)))"
    using le assms(2,3) by (intro count_nonzero_pairs_spec)
  have "nonzero_groups labels (unat start) (unat endp) \<le> unat endp - unat start"
    by (rule nonzero_groups_le)
  also have "\<dots> < 2 ^ 64" using unsigned_less [of endp, where 'a = nat] by simp
  finally have "unat (of_nat (nonzero_groups labels (unat start) (unat endp)) :: u64)
        = nonzero_groups labels (unat start) (unat endp)"
    by (simp add: unat_of_nat)
  with r show ?thesis by simp
qed

theorem count_nonzero_pairs_counts_witness:
  "(33 :: u64) \<le> 70 \<and> unat (70 :: u64) \<le> 32 * length [5 :: u64, 0, 3 * 2 ^ 10]
   \<and> (\<exists>r. count_nonzero_pairs 33 70 [5, 0, 3 * 2 ^ 10] = Some r
          \<and> unat r = nonzero_groups [5, 0, 3 * 2 ^ 10] (unat (33 :: u64)) (unat (70 :: u64)))"
  using count_nonzero_pairs_counts [of 33 70 "[5, 0, 3 * 2 ^ 10]"] by simp

text \<open>
  C7, as stated for every array, fails for the same reason: in \<open>huge_labels\<close> the ranks of
  \<open>[0, 32)\<close> and \<open>[32, 2^36)\<close> are 1 and 0, the rank of \<open>[0, 2^36)\<close> is 0.
\<close>

theorem count_nonzero_pairs_additive_counterexample:
  "(0 :: u64) \<le> 32 \<and> (32 :: u64) \<le> 2 ^ 36 \<and> unat (2 ^ 36 :: u64) \<le> 32 * length huge_labels
   \<and> count_nonzero_pairs 0 32 huge_labels = Some 1
   \<and> count_nonzero_pairs 32 (2 ^ 36) huge_labels = Some 0
   \<and> count_nonzero_pairs 0 (2 ^ 36) huge_labels = Some 0"
  using cnp_0_huge [of huge_labels] cnp_32_huge [of huge_labels] cnp_0_32_huge
  by (simp add: length_huge_labels)

text \<open>
  C7, amended: for every label array and all vertex indices \<open>a \<le> b \<le> c\<close> with \<open>c\<close> at
  most the number of vertices of the array, \<open>b\<close> inside the array and \<open>c < 2^36\<close>, the three
  ranks are defined and \<open>rank(a, b) + rank(b, c) = rank(a, c)\<close>, without wrap-around; and
  \<open>rank(x, x) = 0\<close> for every \<open>x < 2^36\<close> inside the array.
\<close>

theorem count_nonzero_pairs_additive:
  fixes a b c x :: u64
  assumes "a \<le> b" and "b \<le> c" and "unat c \<le> 32 * length labels"
    and "unat b < 32 * length labels" and "unat c < 2 ^ 36"
    and "unat x < 32 * length labels" and "unat x < 2 ^ 36"
  shows "(\<exists>r1 r2 r3. count_nonzero_pairs a b labels = Some r1
            \<and> count_nonzero_pairs b c labels = Some r2
            \<and> count_nonzero_pairs a c labels = Some r3
            \<and> r1 + r2 = r3 \<and> unat r1 + unat r2 = unat r3)
         \<and> count_nonzero_pairs x x labels = Some 0"
proof -
  have ab: "unat a \<le> unat b" and bc: "unat b \<le> unat c"
    using assms(1,2) by (simp_all add: word_le_nat_alt)
  have fit_c: "unat c div 32 < 2 ^ 31" using assms(5) by simp
  have fit_b: "unat b div 32 < 2 ^ 31" using assms(5) bc by simp
  have fit_x: "unat x div 32 < 2 ^ 31" using assms(7) by simp
  have r1: "count_nonzero_pairs a b labels = Some (of_nat (nonzero_groups labels (unat a) (unat b)))"
    using ab bc assms(4) fit_b by (intro count_nonzero_pairs_spec) simp_all
  have r2: "count_nonzero_pairs b c labels = Some (of_nat (nonzero_groups labels (unat b) (unat c)))"
    using bc assms(3,4) fit_c by (intro count_nonzero_pairs_spec) simp_all
  have r3: "count_nonzero_pairs a c labels = Some (of_nat (nonzero_groups labels (unat a) (unat c)))"
    using ab bc assms(3,4) fit_c by (intro count_nonzero_pairs_spec) simp_all
  have rx: "count_nonzero_pairs x x labels = Some (of_nat (nonzero_groups labels (unat x) (unat x)))"
    using assms(6) fit_x by (intro count_nonzero_pairs_spec) simp_all
  have sum: "nonzero_groups labels (unat a) (unat b) + nonzero_groups labels (unat b) (unat c)
        = nonzero_groups labels (unat a) (unat c)"
    using ab bc by (rule nonzero_groups_append)
  have small: "nonzero_groups labels i (unat j) < 2 ^ 64" for i and j :: u64
  proof -
    have "nonzero_groups labels i (unat j) \<le> unat j - i" by (rule nonzero_groups_le)
    also have "\<dots> < 2 ^ 64" using unsigned_less [of j, where 'a = nat] by simp
    finally show ?thesis .
  qed
  have un: "unat (of_nat (nonzero_groups labels i (unat j)) :: u64) = nonzero_groups labels i (unat j)"
    for i and j :: u64
    using small [of i j] by (simp add: unat_of_nat)
  have "(of_nat (nonzero_groups labels (unat a) (unat b)) :: u64)
          + of_nat (nonzero_groups labels (unat b) (unat c))
        = of_nat (nonzero_groups labels (unat a) (unat c))"
    by (simp only: sum flip: of_nat_add)
  then show ?thesis
    using sum by (simp add: r1 r2 r3 rx un)
qed

theorem count_nonzero_pairs_additive_witness:
  "(3 :: u64) \<le> 33 \<and> (33 :: u64) \<le> 70 \<and> unat (70 :: u64) \<le> 32 * length [5 :: u64, 0, 3 * 2 ^ 10]
   \<and> (\<exists>r1 r2 r3. count_nonzero_pairs 3 33 [5, 0, 3 * 2 ^ 10] = Some r1
            \<and> count_nonzero_pairs 33 70 [5, 0, 3 * 2 ^ 10] = Some r2
            \<and> count_nonzero_pairs 3 70 [5, 0, 3 * 2 ^ 10] = Some r3
            \<and> r1 + r2 = r3 \<and> unat r1 + unat r2 = unat r3)
   \<and> count_nonzero_pairs 95 95 [5, 0, 3 * 2 ^ 10] = Some 0"
  using count_nonzero_pairs_additive [of 3 33 70 "[5, 0, 3 * 2 ^ 10]" 95] by simp


section \<open>Vertex offsets\<close>


lemma OFFSET_MASK_mask: "OFFSET_MASK = mask 56"
  unfolding OFFSET_MASK_def by (simp add: mask_eq_exp_minus_1)

lemma unat_field: "unat (e AND OFFSET_MASK) = spec_field e"
proof -
  have "unat (e AND OFFSET_MASK) = unat (take_bit 56 e)"
    by (simp only: OFFSET_MASK_mask take_bit_eq_mask)
  also have "\<dots> = take_bit 56 (unat e)"
    by (rule unsigned_take_bit_eq)
  also have "\<dots> = unat e mod 2 ^ 56"
    by (rule take_bit_eq_mod)
  finally show ?thesis by (simp only: spec_field_def)
qed

lemma scast_C_TIMES_256: "(scast C_TIMES_256 :: u64) = 281"
  by (simp add: C_TIMES_256_def)

lemma spec_R_281: "spec_R = 281"
  by (simp add: spec_R_def)

lemma vertex_offset_unat:
  "unat (vertex_offset e) = (spec_field e * 281 mod 2 ^ 64) div 256"
  unfolding vertex_offset_def scast_C_TIMES_256
  by (simp add: unat_drop_bit_eq drop_bit_eq_div unat_word_ariths unat_field)

lemma wrap_differs:
  fixes f :: nat
  assumes "2 ^ 64 \<le> f * 281"
  shows "(f * 281 mod 2 ^ 64) div 256 \<noteq> f * 281 div 256"
proof -
  have "(f * 281 mod 2 ^ 64) div 256 < 2 ^ 56"
    by (simp add: less_mult_imp_div_less)
  moreover have "(2::nat) ^ 64 div 256 \<le> f * 281 div 256"
    using assms by (rule div_le_mono)
  then have "2 ^ 56 \<le> f * 281 div 256" by simp
  ultimately show ?thesis by linarith
qed

lemma spec_field_lt: "spec_field e < 2 ^ 56"
  by (simp add: spec_field_def)

text \<open>
  C6, as stated, fails: for the entry \<open>2^56 - 1\<close> the product \<open>field * 281\<close> does not fit 64
  bits, and the value returned is not \<open>floor(field * R / 256)\<close>.
\<close>

theorem vertex_offset_floor_counterexample:
  "unat (vertex_offset (2 ^ 56 - 1)) \<noteq> spec_vertex_offset (2 ^ 56 - 1)"
  by (simp add: vertex_offset_unat spec_vertex_offset_def spec_field_def spec_R_281)

text \<open>
  C6, amended: for every 64-bit directory entry, \<open>vertex_offset\<close> takes the low 56 bits
  as the field and returns \<open>floor(((field * R) mod 2^64) / 256)\<close> with
  \<open>R = floor(1.10 * 256) = 281\<close>; this is \<open>floor(field * R / 256)\<close> whenever
  \<open>field * R < 2^64\<close>. The function is total and has no failure mode.
\<close>

theorem vertex_offset_value:
  "unat (vertex_offset entry) = (spec_field entry * spec_R mod 2 ^ 64) div 256
   \<and> (spec_field entry * spec_R < 2 ^ 64 \<longrightarrow> unat (vertex_offset entry) = spec_vertex_offset entry)"
  by (simp add: vertex_offset_unat spec_vertex_offset_def spec_R_281)

theorem vertex_offset_value_witness:
  "spec_field 1000 * spec_R < 2 ^ 64 \<and> unat (vertex_offset 1000) = spec_vertex_offset 1000
   \<and> spec_vertex_offset 1000 = 1097"
  using vertex_offset_value [of 1000]
  by (simp add: spec_vertex_offset_def spec_field_def spec_R_281)

text \<open>
  C9: \<open>vertex_offset\<close> multiplies in 64-bit modular arithmetic. For every entry whose field
  exceeds \<open>floor((2^64 - 1) / 281)\<close> the result is \<open>((field * 281) mod 2^64) >> 8\<close> and
  differs from \<open>floor(field * 281 / 256)\<close>; the floor formula is reproduced exactly when,
  and only when, \<open>field * 281 < 2^64\<close>.
\<close>

theorem vertex_offset_wraps:
  "((2 ^ 64 - 1) div 281 < spec_field entry \<longrightarrow>
      unat (vertex_offset entry) = (spec_field entry * 281 mod 2 ^ 64) div 2 ^ 8
      \<and> unat (vertex_offset entry) \<noteq> spec_field entry * 281 div 256)
   \<and> (unat (vertex_offset entry) = spec_field entry * 281 div 256
        \<longleftrightarrow> spec_field entry * 281 < 2 ^ 64)"
proof (intro conjI impI)
  assume "(2 ^ 64 - 1) div 281 < spec_field entry"
  then have big: "2 ^ 64 \<le> spec_field entry * 281" by (simp; arith)
  show "unat (vertex_offset entry) = (spec_field entry * 281 mod 2 ^ 64) div 2 ^ 8"
    by (simp add: vertex_offset_unat)
  show "unat (vertex_offset entry) \<noteq> spec_field entry * 281 div 256"
    unfolding vertex_offset_unat using big by (rule wrap_differs)
next
  show "unat (vertex_offset entry) = spec_field entry * 281 div 256
        \<longleftrightarrow> spec_field entry * 281 < 2 ^ 64"
  proof (cases "spec_field entry * 281 < 2 ^ 64")
    case True
    then show ?thesis by (simp add: vertex_offset_unat)
  next
    case False
    then have "2 ^ 64 \<le> spec_field entry * 281" by simp
    then have "(spec_field entry * 281 mod 2 ^ 64) div 256 \<noteq> spec_field entry * 281 div 256"
      by (rule wrap_differs)
    with False show ?thesis by (simp only: vertex_offset_unat)
  qed
qed


theorem vertex_offset_wraps_witness:
  "(2 ^ 64 - 1) div 281 < spec_field (2 ^ 56 - 1)
   \<and> unat (vertex_offset (2 ^ 56 - 1)) = 7036874417766398
   \<and> spec_field (2 ^ 56 - 1) * 281 div 256 = 79094468455694334
   \<and> spec_field 1000 * 281 < 2 ^ 64 \<and> unat (vertex_offset 1000) = 1097"
  using vertex_offset_wraps [of "2 ^ 56 - 1"] vertex_offset_wraps [of 1000]
  by (simp add: spec_field_def)


section \<open>Edge triples\<close>


lemma bit_length_le_iff: "bit_length n \<le> k \<longleftrightarrow> n < 2 ^ k"
proof (induction n arbitrary: k rule: bit_length.induct)
  case (1 n)
  show ?case
  proof (cases "n = 0")
    case True
    then show ?thesis by (simp add: bit_length.simps)
  next
    case False
    show ?thesis
    proof (cases k)
      case 0
      with False show ?thesis by (simp add: bit_length.simps [of n])
    next
      case (Suc j)
      have "bit_length n \<le> Suc j \<longleftrightarrow> bit_length (n div 2) \<le> j"
        using False by (simp add: bit_length.simps [of n])
      also have "\<dots> \<longleftrightarrow> n div 2 < 2 ^ j" using "1.IH" [OF False] .
      also have "\<dots> \<longleftrightarrow> n < 2 ^ Suc j" by auto
      finally show ?thesis using Suc by simp
    qed
  qed
qed

lemma bit_length_lt: "n < 2 ^ bit_length n"
  using bit_length_le_iff [of n "bit_length n"] by simp

lemma bit_top_nat:
  fixes a :: nat
  assumes "a < 2 ^ Suc n"
  shows "bit a n \<longleftrightarrow> 2 ^ n \<le> a"
proof -
  have "a div 2 ^ n < 2" using assms by (simp add: less_mult_imp_div_less)
  then have "a div 2 ^ n = 0 \<or> a div 2 ^ n = 1" by auto
  moreover have "a div 2 ^ n = 0 \<longleftrightarrow> a < 2 ^ n" by (auto simp: div_eq_0_iff)
  ultimately show ?thesis by (auto simp: bit_iff_odd)
qed

lemma clz_below_bit_length:
  "unat x < 2 ^ n \<Longrightarrow> clz_below x n = n - bit_length (unat x)"
proof (induction n)
  case 0
  then have "unat x = 0" by simp
  then show ?case by (simp add: bit_length.simps)
next
  case (Suc n)
  have top: "bit x n \<longleftrightarrow> 2 ^ n \<le> unat x"
    using bit_top_nat [OF Suc.prems] by (simp add: bit_unsigned_iff)
  show ?case
  proof (cases "bit x n")
    case True
    then have "\<not> unat x < 2 ^ n" using top by simp
    then have "\<not> bit_length (unat x) \<le> n" by (simp add: bit_length_le_iff)
    then show ?thesis using True by simp
  next
    case False
    then have small: "unat x < 2 ^ n" using top by simp
    then have "bit_length (unat x) \<le> n" by (simp add: bit_length_le_iff)
    then show ?thesis using False Suc.IH [OF small] by simp
  qed
qed

lemma clzll_bit_length:
  "x \<noteq> 0 \<Longrightarrow> clzll x = Some (of_nat (64 - bit_length (unat x)))"
proof -
  have "unat x < 2 ^ 64" using unsigned_less [of x, where 'a = nat] by simp
  then have "clz_below x 64 = 64 - bit_length (unat x)" by (rule clz_below_bit_length)
  then show "x \<noteq> 0 \<Longrightarrow> ?thesis" by (simp add: clzll_def)
qed



lemma scast_positive:
  assumes "0 \<le> sint (v :: i32)"
  shows "unat (scast v :: u64) = nat (sint v)"
proof -
  have lt: "sint v < 2 ^ 31" using sint_lt [of v] by simp
  have "(scast v :: u64) = of_int (sint v)" by simp
  also have "\<dots> = of_nat (nat (sint v))" using assms by simp
  finally have "unat (scast v :: u64) = nat (sint v) mod 2 ^ 64"
    by (simp only: unat_of_nat) simp
  moreover have "nat (sint v) < 2 ^ 64" using lt assms by simp
  ultimately show ?thesis by simp
qed

lemma unat_and_mask: "unat ((w::u64) AND mask k) = unat w mod 2 ^ k"
proof -
  have "unat (w AND mask k) = unat (take_bit k w)"
    by (simp only: take_bit_eq_mask)
  also have "\<dots> = take_bit k (unat w)"
    by (rule unsigned_take_bit_eq)
  also have "\<dots> = unat w mod 2 ^ k"
    by (rule take_bit_eq_mod)
  finally show ?thesis .
qed

lemma unat_drop: "unat (drop_bit k (w::u64)) = unat w div 2 ^ k"
proof -
  have "unat (drop_bit k w) = drop_bit k (unat w)" by (rule unat_drop_bit_eq)
  also have "\<dots> = unat w div 2 ^ k" by (rule drop_bit_eq_div)
  finally show ?thesis .
qed

lemma nat_and_low: "(x::nat) AND (2 ^ k - 1) = x mod 2 ^ k"
proof -
  have "x AND (2 ^ k - 1) = x AND mask k" by (simp only: mask_eq_exp_minus_1)
  also have "\<dots> = take_bit k x" by (simp only: take_bit_eq_mask)
  also have "\<dots> = x mod 2 ^ k" by (rule take_bit_eq_mod)
  finally show ?thesis .
qed

lemma vertex_candidate:
  fixes hash :: u64 and nv :: i32
  assumes pos: "1 \<le> sint nv"
  defines "n \<equiv> nat (sint nv)"
  defines "sh \<equiv> 64 - bit_length n"
  shows "sint (ucast (drop_bit sh ((hash AND (push_bit sh 1 - 1)) * scast nv)) :: i32)
           = int (spec_vertex n hash)"
    and "spec_vertex n hash < n"
proof -
  have n31: "n < 2 ^ 31" using sint_lt [of nv] pos by (simp add: n_def)
  have npos: "0 < n" using pos by (simp add: n_def)
  have un: "unat (scast nv :: u64) = n" using pos by (simp add: n_def scast_positive)
  have bl: "bit_length n \<le> 31" using n31 by (simp add: bit_length_le_iff)
  then have sum: "sh + bit_length n = 64" by (simp add: sh_def)
  define a where "a = unat hash mod 2 ^ sh"
  have a_lt: "a < 2 ^ sh" by (simp add: a_def)
  have masked: "unat (hash AND (push_bit sh 1 - 1)) = a"
    by (simp only: push1_minus1 unat_and_mask a_def)
  have "a * n < 2 ^ sh * 2 ^ bit_length n"
    using a_lt bit_length_lt [of n] npos by (intro mult_strict_mono) simp_all
  then have prod: "a * n < 2 ^ 64" by (simp add: sum flip: power_add)
  have "unat ((hash AND (push_bit sh 1 - 1)) * scast nv)
        = unat (hash AND (push_bit sh 1 - 1)) * unat (scast nv :: u64) mod 2 ^ LENGTH(64)"
    by (rule unat_word_ariths(2))
  also have "\<dots> = a * n mod 2 ^ 64" by (simp only: masked un) simp
  also have "\<dots> = a * n" using prod by simp
  finally have "unat ((hash AND (push_bit sh 1 - 1)) * scast nv) = a * n" .
  then have dropped: "unat (drop_bit sh ((hash AND (push_bit sh 1 - 1)) * scast nv)) = a * n div 2 ^ sh"
    by (simp only: unat_drop)
  have "a * n < n * 2 ^ sh" using a_lt npos by (simp add: mult.commute)
  then have small: "a * n div 2 ^ sh < n" by (simp add: less_mult_imp_div_less)
  have spec: "spec_vertex n hash = a * n div 2 ^ sh"
    by (simp only: spec_vertex_def Let_def sh_def a_def drop_bit_eq_div nat_and_low)
  show "spec_vertex n hash < n" using small spec by simp
  have "unat (drop_bit sh ((hash AND (push_bit sh 1 - 1)) * scast nv)) < 2 ^ 31"
    using small n31 dropped by simp
  then show "sint (ucast (drop_bit sh ((hash AND (push_bit sh 1 - 1)) * scast nv)) :: i32)
           = int (spec_vertex n hash)"
    using dropped spec by (simp add: sint_ucast_small)
qed



lemma shift_count:
  assumes "1 \<le> sint (nv :: i32)"
  shows "clzll (scast nv) = Some (of_nat (64 - bit_length (nat (sint nv))))"
    and "nat (sint (of_nat (64 - bit_length (nat (sint nv))) :: i32)) = 64 - bit_length (nat (sint nv))"
proof -
  have un: "unat (scast nv :: u64) = nat (sint nv)" using assms by (simp add: scast_positive)
  then have "unat (scast nv :: u64) \<noteq> 0" using assms by simp
  then have "(scast nv :: u64) \<noteq> 0" by (metis unsigned_0)
  then have "clzll (scast nv) = Some (of_nat (64 - bit_length (unat (scast nv :: u64))))"
    by (rule clzll_bit_length)
  then show "clzll (scast nv) = Some (of_nat (64 - bit_length (nat (sint nv))))"
    by (simp only: un)
  have "64 - bit_length (nat (sint nv)) < 2 ^ 31"
    by (rule le_less_trans [of _ 64]) simp_all
  then show "nat (sint (of_nat (64 - bit_length (nat (sint nv))) :: i32)) = 64 - bit_length (nat (sint nv))"
    by (simp only: sint_of_nat_i32 nat_int)
qed

text \<open>
  C5: for every \<open>num_variables \<ge> 1\<close> and every rehashed value, \<open>triple_to_equation\<close> takes
  \<open>shift = 64 - bit_length(num_variables)\<close> and \<open>mask = 2^shift - 1\<close>, sets
  \<open>e[i] = ((hash[i] & mask) * num_variables) >> shift\<close> for \<open>i = 0, 1, 2\<close> (the product does
  not wrap), and each of the three vertex candidates lies in \<open>[0, num_variables)\<close>.
\<close>

theorem triple_to_equation_range:
  assumes "1 \<le> sint num_variables"
    and "spooky_short_rehash triple seed = (hash0, hash1, hash2, hash3)"
  shows "clzll (scast num_variables) = Some (of_nat (64 - bit_length (nat (sint num_variables))))
     \<and> (\<exists>e0 e1 e2.
           triple_to_equation spooky_short_rehash triple seed num_variables = Some (e0, e1, e2)
         \<and> sint e0 = int (spec_vertex (nat (sint num_variables)) hash0)
         \<and> sint e1 = int (spec_vertex (nat (sint num_variables)) hash1)
         \<and> sint e2 = int (spec_vertex (nat (sint num_variables)) hash2)
         \<and> 0 \<le> sint e0 \<and> sint e0 < sint num_variables
         \<and> 0 \<le> sint e1 \<and> sint e1 < sint num_variables
         \<and> 0 \<le> sint e2 \<and> sint e2 < sint num_variables)"
proof -
  let ?n = "nat (sint num_variables)"
  let ?sh = "64 - bit_length ?n"
  let ?e = "\<lambda>hash :: u64. (ucast (drop_bit ?sh ((hash AND (push_bit ?sh 1 - 1)) * scast num_variables)) :: i32)"
  note sc = shift_count [OF assms(1)]
  have val: "sint (?e hash) = int (spec_vertex ?n hash)" for hash
    using assms(1) by (rule vertex_candidate(1))
  have "spec_vertex ?n hash < ?n" for hash
    using assms(1) by (rule vertex_candidate(2))
  then have rng: "0 \<le> sint (?e hash) \<and> sint (?e hash) < sint num_variables" for hash
    using assms(1) by (simp only: val) (metis int_nat_eq of_nat_0_le_iff of_nat_less_iff order_trans zero_le_one)
  have "triple_to_equation spooky_short_rehash triple seed num_variables
        = Some (?e hash0, ?e hash1, ?e hash2)"
    by (simp only: triple_to_equation_def assms(2) prod.case sc Option.bind.bind_lunit Let_def)
  then show ?thesis using sc(1) val rng by blast
qed



theorem triple_to_equation_range_witness:
  "1 \<le> sint (5 :: i32)
   \<and> triple_to_equation (\<lambda>t s. (2 ^ 64 - 1, 2 ^ 60, 0, 0)) (1, 2, 3, 4) 9 5 = Some (4, 2, 0)"
proof -
  have v: "spec_vertex 5 (2 ^ 64 - 1) = 4" "spec_vertex 5 (2 ^ 60) = 2" "spec_vertex 5 0 = 0"
    by (simp_all add: spec_vertex_def bit_length.simps drop_bit_eq_div nat_and_low)
  obtain e0 e1 e2 :: i32 where
    t: "triple_to_equation (\<lambda>t s. (2 ^ 64 - 1, 2 ^ 60, 0, 0)) (1, 2, 3, 4) 9 5 = Some (e0, e1, e2)"
    and e: "sint e0 = 4" "sint e1 = 2" "sint e2 = 0"
    using triple_to_equation_range [of 5 "\<lambda>t s. (2 ^ 64 - 1, 2 ^ 60, 0, 0)" "(1, 2, 3, 4)" 9 "2 ^ 64 - 1" "2 ^ 60" 0 0] v
    by auto
  have "e0 = 4" "e1 = 2" "e2 = 0"
    using e by (simp_all add: word_eq_iff_signed [where 'a = int])
  with t show ?thesis by simp
qed


section \<open>The two entry points\<close>


text \<open>
  C8: for every index and every 64-bit key \<open>k\<close>, \<open>get_uint64_t(index, k)\<close> returns what
  \<open>get_byte_array(index, b, 8)\<close> returns for the 8 bytes \<open>b\<close> of \<open>k\<close> in memory: the two entry
  points differ only in the key bytes given to the hash primitive.
\<close>

theorem get_uint64_t_is_get_byte_array:
  "get_uint64_t en spooky_short spooky_short_rehash m k
   = get_byte_array spooky_short spooky_short_rehash m (object_bytes en k) 8"
  by (simp only: get_uint64_t_def get_byte_array_def)


lemma ucast_drop_all_ones:
  assumes "n \<le> 32"
  shows "(ucast (drop_bit n (- 1 :: u64)) :: i32) = - 1"
proof (rule bit_word_eqI)
  fix k assume "k < LENGTH(32)"
  then show "bit (ucast (drop_bit n (- 1 :: u64)) :: i32) k \<longleftrightarrow> bit (- 1 :: i32) k"
    using assms by (simp add: bit_ucast_iff bit_drop_bit_eq bit_mask_iff)
qed

lemma unat_drop_spec: "unat (drop_bit (unat (chunk_shift m)) h0) = spec_chunk m h0"
  by (simp only: unat_drop spec_chunk_def)

lemma chunk_of_Some:
  assumes "uint (chunk_shift m) < 64"
  shows "chunk_of m h0 = Some (ucast (drop_bit (unat (chunk_shift m)) h0))"
  using assms by (simp add: chunk_of_def shift_right_def)

lemma sint_ucast_iff:
  "sint (ucast (w :: u64) :: i32) = int (unat w) \<longleftrightarrow> unat w < 2 ^ 31"
proof
  assume "sint (ucast w :: i32) = int (unat w)"
  moreover have "sint (ucast w :: i32) < 2 ^ 31" using sint_lt [of "ucast w :: i32"] by simp
  ultimately have "int (unat w) < int (2 ^ 31)" by simp
  then show "unat w < 2 ^ 31" by (simp only: of_nat_less_iff)
next
  assume "unat w < 2 ^ 31"
  then show "sint (ucast w :: i32) = int (unat w)" by (rule sint_ucast_small)
qed

section \<open>Chunk selection\<close>

text \<open>
  C10: both entry points keep the chunk index in an \<open>int\<close>. The index used equals the
  \<open>h[0] >> chunk_shift\<close> of the specification exactly when that value is below \<open>2^31\<close>;
  and for every index whose \<open>chunk_shift\<close> is at most 32 there is a hash value whose stored
  chunk index is negative, differs from the specified chunk, and sends the directory
  lookup of both entry points outside the directory.
\<close>

theorem chunk_index_truncation:
  "(uint (chunk_shift m) < 64 \<longrightarrow>
      (\<exists>chunk. chunk_of m h0 = Some chunk
         \<and> (sint chunk = int (spec_chunk m h0) \<longleftrightarrow> spec_chunk m h0 < 2 ^ 31)))
   \<and> (uint (chunk_shift m) \<le> 32 \<longrightarrow>
      (\<exists>h chunk. chunk_of m h = Some chunk \<and> sint chunk < 0
         \<and> sint chunk \<noteq> int (spec_chunk m h)
         \<and> array_get (edge_offset_and_seed m) (sint chunk) = None
         \<and> (\<forall>spooky_short spooky_short_rehash key len.
               fst (spooky_short key len (global_seed m)) = h \<longrightarrow>
               get_byte_array spooky_short spooky_short_rehash m key len = None)
         \<and> (\<forall>en spooky_short spooky_short_rehash k.
               fst (spooky_short (object_bytes en k) 8 (global_seed m)) = h \<longrightarrow>
               get_uint64_t en spooky_short spooky_short_rehash m k = None)))"
proof (intro conjI impI)
  assume d: "uint (chunk_shift m) < 64"
  show "\<exists>chunk. chunk_of m h0 = Some chunk
         \<and> (sint chunk = int (spec_chunk m h0) \<longleftrightarrow> spec_chunk m h0 < 2 ^ 31)"
  proof -
    let ?w = "drop_bit (unat (chunk_shift m)) h0"
    have "sint (ucast ?w :: i32) = int (unat ?w) \<longleftrightarrow> unat ?w < 2 ^ 31"
      by (rule sint_ucast_iff)
    then have "sint (ucast ?w :: i32) = int (spec_chunk m h0) \<longleftrightarrow> spec_chunk m h0 < 2 ^ 31"
      by (simp only: unat_drop_spec)
    with chunk_of_Some [OF d, of h0] show ?thesis by blast
  qed
next
  assume le: "uint (chunk_shift m) \<le> 32"
  then have d: "uint (chunk_shift m) < 64" by simp
  have "nat (uint (chunk_shift m)) \<le> 32" using le by linarith
  then have n: "unat (chunk_shift m) \<le> 32" by (simp only: unat_eq_nat_uint)
  have c: "chunk_of m (- 1) = Some (- 1)"
    using chunk_of_Some [OF d, of "- 1"] ucast_drop_all_ones [OF n] by simp
  have g: "array_get (edge_offset_and_seed m) (sint (- 1 :: i32)) = None"
    by (simp add: array_get_def)
  have gb: "get_byte_array spooky_short spooky_short_rehash m key len = None"
    if "fst (spooky_short key len (global_seed m)) = - 1"
    for spooky_short spooky_short_rehash key len
    using that g c by (simp add: get_byte_array_def Let_def)
  have gu: "get_uint64_t en spooky_short spooky_short_rehash m k = None"
    if "fst (spooky_short (object_bytes en k) 8 (global_seed m)) = - 1"
    for en spooky_short spooky_short_rehash k
    using that g c by (simp add: get_uint64_t_def Let_def)
  have ne: "sint (- 1 :: i32) \<noteq> int (spec_chunk m (- 1))" by simp
  have neg: "sint (- 1 :: i32) < 0" by simp
  show "\<exists>h chunk. chunk_of m h = Some chunk \<and> sint chunk < 0
         \<and> sint chunk \<noteq> int (spec_chunk m h)
         \<and> array_get (edge_offset_and_seed m) (sint chunk) = None
         \<and> (\<forall>spooky_short spooky_short_rehash key len.
               fst (spooky_short key len (global_seed m)) = h \<longrightarrow>
               get_byte_array spooky_short spooky_short_rehash m key len = None)
         \<and> (\<forall>en spooky_short spooky_short_rehash k.
               fst (spooky_short (object_bytes en k) 8 (global_seed m)) = h \<longrightarrow>
               get_uint64_t en spooky_short spooky_short_rehash m k = None)"
  proof (intro exI [of _ "- 1"] conjI allI impI)
    show "chunk_of m (- 1) = Some (- 1)" by (rule c)
    show "sint (- 1 :: i32) < 0" by (rule neg)
    show "sint (- 1 :: i32) \<noteq> int (spec_chunk m (- 1))" by (rule ne)
    show "array_get (edge_offset_and_seed m) (sint (- 1 :: i32)) = None" by (rule g)
  next
    fix spooky_short :: "u8 list \<Rightarrow> u64 \<Rightarrow> u64 \<Rightarrow> hash4" and spooky_short_rehash key len
    assume "fst (spooky_short key len (global_seed m)) = - 1"
    then show "get_byte_array spooky_short spooky_short_rehash m key len = None" by (rule gb)
  next
    fix en and spooky_short :: "u8 list \<Rightarrow> u64 \<Rightarrow> u64 \<Rightarrow> hash4" and spooky_short_rehash k
    assume "fst (spooky_short (object_bytes en k) 8 (global_seed m)) = - 1"
    then show "get_uint64_t en spooky_short spooky_short_rehash m k = None" by (rule gu)
  qed
qed



theorem chunk_index_truncation_witness:
  "uint (chunk_shift (example_mph\<lparr>chunk_shift := 20\<rparr>)) < 64
   \<and> uint (chunk_shift (example_mph\<lparr>chunk_shift := 20\<rparr>)) \<le> 32
   \<and> (\<exists>chunk. chunk_of (example_mph\<lparr>chunk_shift := 20\<rparr>) (2 ^ 63) = Some chunk
         \<and> (sint chunk = int (spec_chunk (example_mph\<lparr>chunk_shift := 20\<rparr>) (2 ^ 63))
              \<longleftrightarrow> spec_chunk (example_mph\<lparr>chunk_shift := 20\<rparr>) (2 ^ 63) < 2 ^ 31))
   \<and> (\<exists>h chunk. chunk_of (example_mph\<lparr>chunk_shift := 20\<rparr>) h = Some chunk \<and> sint chunk < 0
         \<and> sint chunk \<noteq> int (spec_chunk (example_mph\<lparr>chunk_shift := 20\<rparr>) h)
         \<and> array_get (edge_offset_and_seed (example_mph\<lparr>chunk_shift := 20\<rparr>)) (sint chunk) = None
         \<and> get_byte_array (\<lambda>key len seed. (h, 0, 0, 0)) toy_rehash
               (example_mph\<lparr>chunk_shift := 20\<rparr>) [0] 1 = None
         \<and> get_uint64_t Little_Endian (\<lambda>key len seed. (h, 0, 0, 0)) toy_rehash
               (example_mph\<lparr>chunk_shift := 20\<rparr>) 0 = None)"
proof -
  let ?m = "example_mph\<lparr>chunk_shift := 20\<rparr>"
  have a: "uint (chunk_shift ?m) < 64" and b: "uint (chunk_shift ?m) \<le> 32"
    by (simp_all add: example_mph_def)
  note t = chunk_index_truncation [of ?m "2 ^ 63"]
  from t a have first: "\<exists>chunk. chunk_of ?m (2 ^ 63) = Some chunk
         \<and> (sint chunk = int (spec_chunk ?m (2 ^ 63)) \<longleftrightarrow> spec_chunk ?m (2 ^ 63) < 2 ^ 31)"
    by blast
  from t b obtain h chunk where
    "chunk_of ?m h = Some chunk" "sint chunk < 0" "sint chunk \<noteq> int (spec_chunk ?m h)"
    "array_get (edge_offset_and_seed ?m) (sint chunk) = None"
    "\<forall>spooky_short spooky_short_rehash key len.
               fst (spooky_short key len (global_seed ?m)) = h \<longrightarrow>
               get_byte_array spooky_short spooky_short_rehash ?m key len = None"
    "\<forall>en spooky_short spooky_short_rehash k.
               fst (spooky_short (object_bytes en k) 8 (global_seed ?m)) = h \<longrightarrow>
               get_uint64_t en spooky_short spooky_short_rehash ?m k = None"
    by blast
  then have "chunk_of ?m h = Some chunk \<and> sint chunk < 0
         \<and> sint chunk \<noteq> int (spec_chunk ?m h)
         \<and> array_get (edge_offset_and_seed ?m) (sint chunk) = None
         \<and> get_byte_array (\<lambda>key len seed. (h, 0, 0, 0)) toy_rehash ?m [0] 1 = None
         \<and> get_uint64_t Little_Endian (\<lambda>key len seed. (h, 0, 0, 0)) toy_rehash ?m 0 = None"
    by simp
  then show ?thesis using a b first by blast
qed


section \<open>The result of an evaluation\<close>


lemma get_byte_array_evaluate:
  "get_byte_array spooky_short spooky_short_rehash m key len
   = evaluate_hash spooky_short_rehash m (spooky_short key len (global_seed m))"
  by (simp only: get_byte_array_def evaluate_hash_def Let_def)

lemma get_uint64_t_evaluate:
  "get_uint64_t en spooky_short spooky_short_rehash m k
   = evaluate_hash spooky_short_rehash m (spooky_short (object_bytes en k) 8 (global_seed m))"
  by (simp only: get_uint64_t_def evaluate_hash_def Let_def)

lemma unat_add_le: "unat (a + b :: u64) \<le> unat a + unat b"
  by (simp add: unat_word_ariths)

lemma count_word_le: "unat (scast (count_nonzero_pairs_word w) :: u64) \<le> 32"
proof -
  have "length (filter (pair_set w) [0..<32]) \<le> 32"
    using length_filter_le [of "pair_set w" "[0..<32]"] by simp
  then show ?thesis by (simp add: scast_count_word unat_of_nat)
qed

lemma count_blocks_bound:
  "count_blocks a b e p = Some (b', p') \<Longrightarrow> unat p' \<le> unat p + 32 * nat (sint e - sint b)"
proof (induction a b e p rule: count_blocks.induct)
  case (1 array block end_block pairs)
  show ?case
  proof (cases "block <s end_block")
    case True
    then have lt: "sint block < sint end_block" by (simp add: word_sless_alt)
    have succ: "sint (block + 1) = sint block + 1" using True by (rule sint_succ)
    from "1.prems" True obtain w where
      get: "array_get array (sint block) = Some w"
      and rec: "count_blocks array (block + 1) end_block (pairs + scast (count_nonzero_pairs_word w)) = Some (b', p')"
      by (subst (asm) count_blocks.simps) (auto split: option.splits)
    have "unat p' \<le> unat (pairs + scast (count_nonzero_pairs_word w)) + 32 * nat (sint end_block - sint (block + 1))"
      using "1.IH" [OF True get rec] .
    also have "unat (pairs + scast (count_nonzero_pairs_word w)) \<le> unat pairs + 32"
      using unat_add_le [of pairs "scast (count_nonzero_pairs_word w)"] count_word_le [of w] by linarith
    finally show ?thesis using lt succ by (simp add: nat_diff_distrib) 
  next
    case False
    with "1.prems" show ?thesis by (subst (asm) count_blocks.simps) simp
  qed
qed



lemma sint_diff_le: "nat (sint (e :: i32) - sint (b :: i32)) \<le> 2 ^ 32"
  using sint_lt [of e] sint_ge [of b] by simp

lemma count_nonzero_pairs_bound:
  assumes "count_nonzero_pairs start endp a = Some p"
  shows "unat p \<le> 2 ^ 38"
proof -
  let ?block = "ucast (start div 32) :: i32" and ?end_block = "ucast (endp div 32) :: i32"
  show ?thesis
  proof (cases "?block = ?end_block")
    case True
    with assms obtain w where "p = scast (count_nonzero_pairs_word w)"
      by (auto simp: count_nonzero_pairs_def Let_def bind_eq_Some_conv)
    then show ?thesis using count_word_le [of w] by simp
  next
    case False
    with assms have "\<exists>block1 pairs1 block2 pairs2.
        (pairs1 = 0 \<or> (\<exists>w. pairs1 = scast (count_nonzero_pairs_word w)))
        \<and> count_blocks a block1 ?end_block pairs1 = Some (block2, pairs2)
        \<and> (p = pairs2 \<or> (\<exists>w. p = pairs2 + scast (count_nonzero_pairs_word w)))"
      unfolding count_nonzero_pairs_def Let_def
      by (simp add: bind_eq_Some_conv push1_minus1 split: if_splits) blast+
    then obtain block1 pairs1 block2 pairs2 where
      first: "pairs1 = 0 \<or> (\<exists>w. pairs1 = scast (count_nonzero_pairs_word w))"
      and loop: "count_blocks a block1 ?end_block pairs1 = Some (block2, pairs2)"
      and last: "p = pairs2 \<or> (\<exists>w. p = pairs2 + scast (count_nonzero_pairs_word w))"
      by blast
    have p1: "unat pairs1 \<le> 32" using first count_word_le by auto
    have "unat pairs2 \<le> unat pairs1 + 32 * nat (sint ?end_block - sint block1)"
      using loop by (rule count_blocks_bound)
    also have "\<dots> \<le> 32 + 32 * 2 ^ 32"
      using p1 sint_diff_le [of ?end_block block1] by simp
    finally have p2: "unat pairs2 \<le> 32 + 32 * 2 ^ 32" .
    have "unat p \<le> unat pairs2 + 32"
    proof (cases "p = pairs2")
      case True
      then show ?thesis by simp
    next
      case False
      with last obtain w where "p = pairs2 + scast (count_nonzero_pairs_word w)" by blast
      then have "unat p = unat (pairs2 + scast (count_nonzero_pairs_word w))" by simp
      also have "\<dots> \<le> unat pairs2 + unat (scast (count_nonzero_pairs_word w) :: u64)"
        by (rule unat_add_le)
      also have "\<dots> \<le> unat pairs2 + 32" using count_word_le [of w] by simp
      finally show ?thesis .
    qed
    with p2 show ?thesis by simp
  qed
qed

lemma sint_nonneg: "unat (r :: u64) < 2 ^ 63 \<Longrightarrow> 0 \<le> sint r"
proof -
  assume "unat r < 2 ^ 63"
  then have "\<not> bit r 63"
    using bit_top_nat [of "unat r" 63] unsigned_less [of r, where 'a = nat]
    by (simp add: bit_unsigned_iff)
  then show ?thesis by (simp add: sint_uint signed_take_bit_eq_if_positive bit_uint_iff)
qed

lemma result_nonneg:
  assumes "unat p \<le> 2 ^ 38"
  shows "0 \<le> sint ((entry AND OFFSET_MASK) + p)"
proof -
  have "unat (entry AND OFFSET_MASK) < 2 ^ 56"
    by (simp only: unat_field spec_field_lt)
  then have "unat ((entry AND OFFSET_MASK) + p) < 2 ^ 63"
    using unat_add_le [of "entry AND OFFSET_MASK" p] assms by simp
  then show ?thesis by (rule sint_nonneg)
qed

lemma evaluate_hash_result:
  assumes "chunk_of m (fst h) = Some chunk"
    and "array_get (edge_offset_and_seed m) (sint chunk) = Some entry"
    and "array_get (edge_offset_and_seed m) (sint (chunk + 1)) = Some next_entry"
  shows "(ucast (vertex_offset next_entry - vertex_offset entry) :: i32) = 0
           \<Longrightarrow> evaluate_hash rehash m h = Some (- 1)"
    and "(ucast (vertex_offset next_entry - vertex_offset entry) :: i32) \<noteq> 0
           \<Longrightarrow> evaluate_hash rehash m h = Some r \<Longrightarrow> 0 \<le> sint r"
proof -
  show "(ucast (vertex_offset next_entry - vertex_offset entry) :: i32) = 0
           \<Longrightarrow> evaluate_hash rehash m h = Some (- 1)"
    using assms by (simp add: evaluate_hash_def Let_def)
  assume nz: "(ucast (vertex_offset next_entry - vertex_offset entry) :: i32) \<noteq> 0"
    and r: "evaluate_hash rehash m h = Some r"
  from r nz assms have "\<exists>(e :: i32) pairs.
    count_nonzero_pairs (vertex_offset entry) (vertex_offset entry + scast e) (array m) = Some pairs
    \<and> (entry AND OFFSET_MASK) + pairs = r"
    unfolding evaluate_hash_def Let_def
    by (simp add: bind_eq_Some_conv split: prod.splits) blast
  then obtain e :: i32 and pairs where
    "count_nonzero_pairs (vertex_offset entry) (vertex_offset entry + scast e) (array m) = Some pairs"
    and "(entry AND OFFSET_MASK) + pairs = r"
    by blast
  then show "0 \<le> sint r"
    using count_nonzero_pairs_bound result_nonneg by blast
qed



lemmas eval_defs = get_byte_array_def chunk_of_def shift_right_def array_get_def
  vertex_offset_def OFFSET_MASK_def C_TIMES_256_def triple_to_equation_def get_2bit_value_def
  toy_short_def toy_rehash_def mask_numeral

lemma clzll_2: "clzll 2 = Some 62"
  by (simp add: clzll_bit_length bit_length.simps)

lemma clzll_1: "clzll 1 = Some 63"
  by (simp add: clzll_bit_length bit_length.simps)

lemma wide_eval: "get_byte_array toy_short toy_rehash wide_chunk_mph [2] 1 = Some (- 1)"
  by (simp add: eval_defs wide_chunk_mph_def)



lemma nonzero_groups_57:
  "nonzero_groups [57] 0 0 = 0" "nonzero_groups [57] 0 1 = 1" "nonzero_groups [57] 2 2 = 0"
  by (simp_all add: nonzero_groups_def group_nonzero_def pair_set_def)

lemma cnp_57:
  "count_nonzero_pairs 0 0 [57] = Some 0" "count_nonzero_pairs 0 1 [57] = Some 1"
  "count_nonzero_pairs 2 2 [57] = Some 0"
proof -
  have "count_nonzero_pairs 0 0 [57] = Some (of_nat (nonzero_groups [57] (unat (0::u64)) (unat (0::u64))))"
    by (rule count_nonzero_pairs_spec) simp_all
  then show "count_nonzero_pairs 0 0 [57] = Some 0" using nonzero_groups_57 by simp
  have "count_nonzero_pairs 0 1 [57] = Some (of_nat (nonzero_groups [57] (unat (0::u64)) (unat (1::u64))))"
    by (rule count_nonzero_pairs_spec) simp_all
  then show "count_nonzero_pairs 0 1 [57] = Some 1" using nonzero_groups_57 by simp
  have "count_nonzero_pairs 2 2 [57] = Some (of_nat (nonzero_groups [57] (unat (2::u64)) (unat (2::u64))))"
    by (rule count_nonzero_pairs_spec) simp_all
  then show "count_nonzero_pairs 2 2 [57] = Some 0" using nonzero_groups_57 by simp
qed


lemma example_eval_1: "get_byte_array toy_short toy_rehash example_mph [1] 1 = Some 1"
  by (simp add: eval_defs example_mph_def clzll_2 clzll_1 cnp_57)

lemma example_eval_2: "get_byte_array toy_short toy_rehash example_mph [2] 1 = Some 2"
  by (simp add: eval_defs example_mph_def clzll_2 clzll_1 cnp_57)



lemma ucast32_zero_iff: "(ucast (x :: u64) :: i32) = 0 \<longleftrightarrow> unat x mod 2 ^ 32 = 0"
proof -
  have "(ucast x :: i32) = of_nat (unat x)" by simp
  then have "unat (ucast x :: i32) = unat x mod 2 ^ 32"
    by (simp only: unat_of_nat) simp
  moreover have "(ucast x :: i32) = 0 \<longleftrightarrow> unat (ucast x :: i32) = 0"
    by (simp only: unsigned_eq_0_iff)
  ultimately show ?thesis by simp
qed



lemma get_2bit_value_inside:
  assumes "unat pos0 < 32 * length a" and "unat pos0 < 2 ^ 63"
  shows "get_2bit_value a pos0
         = Some (ucast (drop_bit (2 * (unat pos0 mod 32)) (a ! (unat pos0 div 32)) AND 3))"
proof -
  have "unat (pos0 * 2) = unat pos0 * unat (2 :: u64) mod 2 ^ LENGTH(64)"
    by (rule unat_word_ariths(2))
  then have dbl: "unat (pos0 * 2) = 2 * unat pos0" using assms(2) by simp
  have d: "unat (pos0 * 2 div 64) = unat pos0 div 32"
    by (simp add: unat_div dbl)
  have "(2 * unat pos0) mod (2 * 32) = 2 * (unat pos0 mod 32)"
    by (rule mod_mult_mult1)
  then have m: "unat (pos0 * 2 mod 64) = 2 * (unat pos0 mod 32)"
    by (simp add: unat_mod dbl)
  have "uint (pos0 * 2 div 64) = int (unat (pos0 * 2 div 64))" by simp
  then have u: "uint (pos0 * 2 div 64) = int (unat pos0 div 32)" by (simp only: d)
  have "unat pos0 div 32 < length a" using assms(1) by simp
  then have g: "array_get a (int (unat pos0 div 32)) = Some (a ! (unat pos0 div 32))"
    by (simp add: array_get_def)
  show ?thesis
    by (simp only: get_2bit_value_def Let_def u g m Option.bind.bind_lunit)
qed

lemma dibit_small: "unat (ucast ((x :: u64) AND 3) :: i32) \<le> 3"
proof -
  have "x AND 3 = x AND mask 2" by (simp add: mask_numeral)
  then have "unat (x AND 3) = unat x mod 2 ^ 2" by (simp only: unat_and_mask)
  then have le: "unat (x AND 3) \<le> 3" by simp
  have "(ucast (x AND 3) :: i32) = of_nat (unat (x AND 3))" by simp
  then have "unat (ucast (x AND 3) :: i32) = unat (x AND 3) mod 2 ^ 32"
    by (simp only: unat_of_nat) simp
  with le show ?thesis by simp
qed

lemma select_edge:
  fixes v0 v1 v2 :: i32
  assumes "unat v0 \<le> 3" "unat v1 \<le> 3" "unat v2 \<le> 3"
  shows "\<exists>e. array_get [e0, e1, e2] (sint (v0 + v1 + v2) smod 3) = Some e \<and> e \<in> {e0, e1, e2}"
proof -
  have "unat (v0 + v1) = unat v0 + unat v1"
    using assms by (simp add: unat_word_ariths)
  then have "unat (v0 + v1 + v2) = unat v0 + unat v1 + unat v2"
    using assms by (simp add: unat_word_ariths)
  then have s: "unat (v0 + v1 + v2) \<le> 9" using assms by simp
  have "(v0 + v1 + v2) = of_nat (unat (v0 + v1 + v2))" by simp
  then have "sint (v0 + v1 + v2) = int (unat (v0 + v1 + v2))"
    using s sint_of_nat_i32 [of "unat (v0 + v1 + v2)"] by simp
  then obtain n :: nat where n: "sint (v0 + v1 + v2) = int n" by blast
  have "int n smod 3 = int n mod 3"
    by (simp add: smod_int_alt_def sgn_if)
  then have "int n smod 3 = 0 \<or> int n smod 3 = 1 \<or> int n smod 3 = 2" by presburger
  then show ?thesis unfolding n by (auto simp: array_get_def)
qed



lemma triple_to_equation_some:
  assumes "1 \<le> sint num_variables"
  shows "\<exists>e0 e1 e2.
           triple_to_equation rehash triple seed num_variables = Some (e0, e1, e2)
         \<and> sint e0 = int (spec_vertex (nat (sint num_variables)) (fst (rehash triple seed)))
         \<and> sint e1 = int (spec_vertex (nat (sint num_variables)) (fst (snd (rehash triple seed))))
         \<and> sint e2 = int (spec_vertex (nat (sint num_variables)) (fst (snd (snd (rehash triple seed)))))"
proof -
  obtain hash0 hash1 hash2 hash3 where r: "rehash triple seed = (hash0, hash1, hash2, hash3)"
    by (cases "rehash triple seed") auto
  let ?n = "nat (sint num_variables)"
  let ?sh = "64 - bit_length ?n"
  let ?e = "\<lambda>hash :: u64. (ucast (drop_bit ?sh ((hash AND (push_bit ?sh 1 - 1)) * scast num_variables)) :: i32)"
  note sc = shift_count [OF assms]
  have val: "sint (?e hash) = int (spec_vertex ?n hash)" for hash
    using assms by (rule vertex_candidate(1))
  have "triple_to_equation rehash triple seed num_variables
        = Some (?e hash0, ?e hash1, ?e hash2)"
    by (simp only: triple_to_equation_def r prod.case sc Option.bind.bind_lunit Let_def)
  then show ?thesis using val by (simp add: r)
qed

lemma spec_vertex_less: "0 < n \<Longrightarrow> n < 2 ^ 31 \<Longrightarrow> spec_vertex n hash < n"
proof -
  assume n: "0 < n" "n < 2 ^ 31"
  have "sint (of_nat n :: i32) = int n" using n(2) by (rule sint_of_nat_i32)
  then have "1 \<le> sint (of_nat n :: i32)" and "nat (sint (of_nat n :: i32)) = n" using n(1) by simp_all
  then show ?thesis using vertex_candidate(2) [of "of_nat n :: i32" hash] by simp
qed



lemma bit_word_odd: "bit (w :: u64) k \<longleftrightarrow> odd (unat w div 2 ^ k)"
proof -
  have "bit (unat w) k \<longleftrightarrow> bit w k" by (simp add: bit_unsigned_iff)
  moreover have "bit (unat w) k \<longleftrightarrow> odd (unat w div 2 ^ k)" by (rule bit_iff_odd)
  ultimately show ?thesis by simp
qed

lemma label_nonzero: "label labels i \<noteq> 0 \<longleftrightarrow> group_nonzero labels i"
proof -
  define y where "y = unat (labels ! (i div 32)) div 2 ^ (2 * (i mod 32))"
  have p: "(4::nat) ^ (i mod 32) = 2 ^ (2 * (i mod 32))" by (simp add: power_mult)
  have l: "label labels i = y mod 4" by (simp only: label_def y_def p)
  have b0: "bit (labels ! (i div 32)) (2 * (i mod 32)) \<longleftrightarrow> odd y"
    by (simp only: bit_word_odd y_def)
  have "bit (labels ! (i div 32)) (2 * (i mod 32) + 1)
      \<longleftrightarrow> odd (unat (labels ! (i div 32)) div 2 ^ (2 * (i mod 32) + 1))"
    by (rule bit_word_odd)
  also have "unat (labels ! (i div 32)) div 2 ^ (2 * (i mod 32) + 1) = y div 2"
    by (simp only: y_def power_add power_one_right div_mult2_eq)
  finally have b1: "bit (labels ! (i div 32)) (2 * (i mod 32) + 1) \<longleftrightarrow> odd (y div 2)" .
  have "y mod 4 \<noteq> 0 \<longleftrightarrow> odd y \<or> odd (y div 2)" by presburger
  then show ?thesis by (simp only: l group_nonzero_def pair_set_def b0 b1)
qed

lemma label_lt: "label labels i < 4"
  by (simp add: label_def)

lemma get_2bit_value_label:
  assumes "unat pos0 < 32 * length a" and "unat pos0 < 2 ^ 63"
  shows "\<exists>v. get_2bit_value a pos0 = Some v \<and> unat v = label a (unat pos0)"
proof -
  let ?w = "a ! (unat pos0 div 32)" and ?k = "2 * (unat pos0 mod 32)"
  have "drop_bit ?k ?w AND 3 = drop_bit ?k ?w AND mask 2" by (simp add: mask_numeral)
  then have "unat (drop_bit ?k ?w AND 3) = unat (drop_bit ?k ?w) mod 2 ^ 2"
    by (simp only: unat_and_mask)
  also have "\<dots> = unat ?w div 2 ^ ?k mod 4" by (simp only: unat_drop) simp
  also have "\<dots> = label a (unat pos0)" by (simp add: label_def power_mult)
  finally have u: "unat (drop_bit ?k ?w AND 3) = label a (unat pos0)" .
  have "(ucast (drop_bit ?k ?w AND 3) :: i32) = of_nat (unat (drop_bit ?k ?w AND 3))" by simp
  then have "unat (ucast (drop_bit ?k ?w AND 3) :: i32) = label a (unat pos0) mod 2 ^ 32"
    by (simp only: unat_of_nat u) simp
  moreover have "label a (unat pos0) < 2 ^ 32"
    using label_lt [of a "unat pos0"] by simp
  ultimately have "unat (ucast (drop_bit ?k ?w AND 3) :: i32) = label a (unat pos0)" by simp
  then show ?thesis using get_2bit_value_inside [OF assms] by simp
qed

lemma select_edge_label:
  fixes v0 v1 v2 :: i32
  assumes "unat v0 = l0" "unat v1 = l1" "unat v2 = l2" and "l0 < 4" "l1 < 4" "l2 < 4"
  shows "array_get [e0, e1, e2] (sint (v0 + v1 + v2) smod 3)
         = Some ([e0, e1, e2] ! ((l0 + l1 + l2) mod 3))"
proof -
  have "unat (v0 + v1) = unat v0 + unat v1"
    using assms by (simp add: unat_word_ariths)
  then have u: "unat (v0 + v1 + v2) = l0 + l1 + l2"
    using assms by (simp add: unat_word_ariths)
  then have s: "unat (v0 + v1 + v2) < 2 ^ 31" using assms by simp
  have "(v0 + v1 + v2) = of_nat (unat (v0 + v1 + v2))" by simp
  then have "sint (v0 + v1 + v2) = int (unat (v0 + v1 + v2))"
    using s sint_of_nat_i32 [of "unat (v0 + v1 + v2)"] by simp
  then have n: "sint (v0 + v1 + v2) = int (l0 + l1 + l2)" by (simp only: u)
  have "int (l0 + l1 + l2) smod 3 = int (l0 + l1 + l2) mod 3"
    by (simp add: smod_int_alt_def sgn_if)
  also have "\<dots> = int ((l0 + l1 + l2) mod 3)" by (simp add: zmod_int)
  finally have i: "sint (v0 + v1 + v2) smod 3 = int ((l0 + l1 + l2) mod 3)" by (simp only: n)
  have "(l0 + l1 + l2) mod 3 < 3" by simp
  then show ?thesis unfolding i by (simp add: array_get_def)
qed



lemma evaluate_hash_value:
  fixes m :: mph and h :: hash4
  assumes c: "chunk_of m (fst h) = Some chunk"
    and e: "array_get (edge_offset_and_seed m) (sint chunk) = Some entry"
    and n: "array_get (edge_offset_and_seed m) (sint (chunk + 1)) = Some next_entry"
    and lt: "unat (vertex_offset entry) < unat (vertex_offset next_entry)"
    and small: "unat (vertex_offset next_entry) - unat (vertex_offset entry) < 2 ^ 31"
    and inside: "unat (vertex_offset next_entry) \<le> 32 * length (array m)"
    and fits: "unat (vertex_offset next_entry) \<le> 2 ^ 36"
    and words: "rehash h (entry AND NOT OFFSET_MASK) = (w0, w1, w2, w3)"
  defines "co \<equiv> unat (vertex_offset entry)"
  defines "nv \<equiv> unat (vertex_offset next_entry) - unat (vertex_offset entry)"
  defines "t \<equiv> [spec_vertex nv w0, spec_vertex nv w1, spec_vertex nv w2]"
  defines "sel \<equiv> (label (array m) (co + t ! 0) + label (array m) (co + t ! 1)
                    + label (array m) (co + t ! 2)) mod 3"
  shows "evaluate_hash rehash m h
         = Some (of_nat (spec_field entry + nonzero_groups (array m) co (co + t ! sel)))"
    and "t ! sel < nv"
proof -
  let ?cw = "vertex_offset entry" and ?nx = "vertex_offset next_entry"
  let ?nvw = "ucast (?nx - ?cw) :: i32"
  have le: "?cw \<le> ?nx" using lt by (simp add: word_le_nat_alt)
  have un: "unat (?nx - ?cw) = nv" using le by (simp add: unat_sub nv_def)
  have nv31: "nv < 2 ^ 31" using small by (simp add: nv_def)
  have nvpos: "0 < nv" using lt by (simp add: nv_def)
  have snv: "sint ?nvw = int nv" using sint_ucast_small [of "?nx - ?cw"] nv31 by (simp only: un)
  then have one: "1 \<le> sint ?nvw" and nat_nv: "nat (sint ?nvw) = nv" using nvpos by simp_all
  have nz: "?nvw \<noteq> 0" using one by auto
  have cnv: "co + nv = unat ?nx" using lt by (simp add: co_def nv_def)
  from triple_to_equation_some [OF one, of rehash h "entry AND NOT OFFSET_MASK"]
  obtain e0 e1 e2 where
    tr: "triple_to_equation rehash h (entry AND NOT OFFSET_MASK) ?nvw = Some (e0, e1, e2)"
    and s0: "sint e0 = int (spec_vertex nv w0)"
    and s1: "sint e1 = int (spec_vertex nv w1)"
    and s2: "sint e2 = int (spec_vertex nv w2)"
    by (auto simp: nat_nv words)
  have tl: "spec_vertex nv w < nv" for w using nvpos nv31 by (rule spec_vertex_less)
  have pos: "unat (scast x + ?cw) = co + k \<and> co + k < unat ?nx"
    if "sint x = int k" "k < nv" for x :: i32 and k
  proof -
    have "unat (scast x :: u64) = nat (sint x)" using that by (intro scast_positive) simp
    then have sx: "unat (scast x :: u64) = k" using that by simp
    have less: "co + k < unat ?nx" using that cnv by simp
    have "unat (scast x + ?cw) = (unat (scast x :: u64) + unat ?cw) mod 2 ^ LENGTH(64)"
      by (rule unat_word_ariths(1))
    also have "\<dots> = (k + co) mod 2 ^ 64" by (simp only: sx co_def) simp
    also have "\<dots> = co + k" using less fits by simp
    finally show ?thesis using less by simp
  qed
  have lab: "\<exists>v. get_2bit_value (array m) (scast x + ?cw) = Some v \<and> unat v = label (array m) (co + k)"
    if "sint x = int k" "k < nv" for x :: i32 and k
  proof -
    from pos [OF that] have p: "unat (scast x + ?cw) = co + k" "co + k < unat ?nx" by simp_all
    have "unat (scast x + ?cw) < 32 * length (array m)" using p inside by simp
    moreover have "unat (scast x + ?cw) < 2 ^ 63" using p fits by simp
    ultimately show ?thesis using get_2bit_value_label [of "scast x + ?cw" "array m"] p(1) by simp
  qed
  from lab [OF s0 tl] obtain v0 where
    g0: "get_2bit_value (array m) (scast e0 + ?cw) = Some v0" and u0: "unat v0 = label (array m) (co + t ! 0)"
    by (auto simp: t_def)
  from lab [OF s1 tl] obtain v1 where
    g1: "get_2bit_value (array m) (scast e1 + ?cw) = Some v1" and u1: "unat v1 = label (array m) (co + t ! 1)"
    by (auto simp: t_def)
  from lab [OF s2 tl] obtain v2 where
    g2: "get_2bit_value (array m) (scast e2 + ?cw) = Some v2" and u2: "unat v2 = label (array m) (co + t ! 2)"
    by (auto simp: t_def)
  have se: "array_get [e0, e1, e2] (sint (v0 + v1 + v2) smod 3) = Some ([e0, e1, e2] ! sel)"
    unfolding sel_def using u0 u1 u2 by (rule select_edge_label) (rule label_lt)+
  have sel3: "sel < 3" by (simp add: sel_def)
  have ssel: "sint ([e0, e1, e2] ! sel) = int (t ! sel)"
    using sel3 s0 s1 s2 by (auto simp: t_def less_Suc_eq numeral_3_eq_3)
  show tsel: "t ! sel < nv"
    using sel3 tl by (auto simp: t_def less_Suc_eq numeral_3_eq_3)
  from pos [OF ssel tsel] have
    pe: "unat (?cw + scast ([e0, e1, e2] ! sel)) = co + t ! sel" and pl: "co + t ! sel < unat ?nx"
    by (simp_all add: add.commute)
  have "count_nonzero_pairs ?cw (?cw + scast ([e0, e1, e2] ! sel)) (array m)
        = Some (of_nat (nonzero_groups (array m) (unat ?cw)
                  (unat (?cw + scast ([e0, e1, e2] ! sel)))))"
  proof (rule count_nonzero_pairs_spec)
    show "unat ?cw \<le> unat (?cw + scast ([e0, e1, e2] ! sel))" by (simp add: pe co_def)
    show "unat (?cw + scast ([e0, e1, e2] ! sel)) \<le> 32 * length (array m)"
      using pe pl inside by simp
    show "unat ?cw < 32 * length (array m)" using lt inside by simp
    have "unat (?cw + scast ([e0, e1, e2] ! sel)) < 2 ^ 36" using pe pl fits by simp
    then show "unat (?cw + scast ([e0, e1, e2] ! sel)) div 32 < 2 ^ 31" by simp
  qed
  then have cnt: "count_nonzero_pairs ?cw (?cw + scast ([e0, e1, e2] ! sel)) (array m)
        = Some (of_nat (nonzero_groups (array m) co (co + t ! sel)))"
    by (simp only: pe) (simp only: co_def)
  have "(entry AND OFFSET_MASK) = of_nat (unat (entry AND OFFSET_MASK))" by simp
  then have fld: "(entry AND OFFSET_MASK) = of_nat (spec_field entry)" by (simp only: unat_field)
  have "evaluate_hash rehash m h
        = Some ((entry AND OFFSET_MASK) + of_nat (nonzero_groups (array m) co (co + t ! sel)))"
    using nz
    by (simp only: evaluate_hash_def c e n Let_def Option.bind.bind_lunit if_False tr prod.case
          g0 g1 g2 se cnt)
  then show "evaluate_hash rehash m h
         = Some (of_nat (spec_field entry + nonzero_groups (array m) co (co + t ! sel)))"
    by (simp only: fld of_nat_add)
qed



lemma sint_of_nat_u64: "k < 2 ^ 63 \<Longrightarrow> sint (of_nat k :: u64) = int k"
  by (simp add: signed_of_nat signed_take_bit_int_eq_self)

lemma evaluate_hash_ordinal:
  fixes m :: mph and h :: hash4
  assumes c: "chunk_of m (fst h) = Some chunk"
    and e: "array_get (edge_offset_and_seed m) (sint chunk) = Some entry"
    and n: "array_get (edge_offset_and_seed m) (sint (chunk + 1)) = Some next_entry"
    and lt: "unat (vertex_offset entry) < unat (vertex_offset next_entry)"
    and small: "unat (vertex_offset next_entry) - unat (vertex_offset entry) < 2 ^ 31"
    and inside: "unat (vertex_offset next_entry) \<le> 32 * length (array m)"
    and fits: "unat (vertex_offset next_entry) \<le> 2 ^ 36"
  shows "\<exists>r k. evaluate_hash rehash m h = Some r \<and> 0 \<le> sint r
           \<and> sint r = int (spec_field entry + k)
           \<and> k < unat (vertex_offset next_entry) - unat (vertex_offset entry)"
proof -
  obtain w0 w1 w2 w3 where words: "rehash h (entry AND NOT OFFSET_MASK) = (w0, w1, w2, w3)"
    by (cases "rehash h (entry AND NOT OFFSET_MASK)") auto
  let ?co = "unat (vertex_offset entry)"
  let ?nv = "unat (vertex_offset next_entry) - unat (vertex_offset entry)"
  let ?t = "[spec_vertex ?nv w0, spec_vertex ?nv w1, spec_vertex ?nv w2]"
  let ?sel = "(label (array m) (?co + ?t ! 0) + label (array m) (?co + ?t ! 1)
                    + label (array m) (?co + ?t ! 2)) mod 3"
  define k where "k = nonzero_groups (array m) ?co (?co + ?t ! ?sel)"
  note v = evaluate_hash_value [where rehash = rehash and h = h and m = m,
      OF c e n lt small inside fits words]
  have "k \<le> (?co + ?t ! ?sel) - ?co" unfolding k_def by (rule nonzero_groups_le)
  then have "k \<le> ?t ! ?sel" by simp
  then have kl: "k < ?nv" using v(2) by (rule le_less_trans)
  have "spec_field entry + k < 2 ^ 56 + 2 ^ 31"
    using spec_field_lt [of entry] kl small by simp
  then have "spec_field entry + k < 2 ^ 63" by simp
  then have s: "sint (of_nat (spec_field entry + k) :: u64) = int (spec_field entry + k)"
    by (rule sint_of_nat_u64)
  have r: "evaluate_hash rehash m h = Some (of_nat (spec_field entry + k))"
    using v(1) by (simp only: k_def)
  have "0 \<le> sint (of_nat (spec_field entry + k) :: u64)" by (simp only: s of_nat_0_le_iff)
  with r s kl show ?thesis by blast
qed

text \<open>
  C4, as stated, fails: \<open>num_variables\<close> is an \<open>int\<close>. In \<open>wide_chunk_mph\<close> the key \<open>[2]\<close>
  hashes into chunk 1, whose two vertex offsets 1 and \<open>2^32 + 1\<close> are not equal, and the
  result is -1.
\<close>

theorem evaluate_minus_one_counterexample:
  "chunk_of wide_chunk_mph (fst (toy_short [2] 1 (global_seed wide_chunk_mph))) = Some 1
   \<and> array_get (edge_offset_and_seed wide_chunk_mph) (sint (1 :: i32)) = Some 1
   \<and> array_get (edge_offset_and_seed wide_chunk_mph) (sint (1 + 1 :: i32)) = Some 3912852769
   \<and> vertex_offset 1 = 1 \<and> vertex_offset 3912852769 = 2 ^ 32 + 1
   \<and> get_byte_array toy_short toy_rehash wide_chunk_mph [2] 1 = Some (- 1)"
  using wide_eval by (simp add: eval_defs wide_chunk_mph_def)

text \<open>
  C4, amended: for either entry point, when the chunk shift is defined and the directory
  entries \<open>chunk\<close> and \<open>chunk + 1\<close> are read inside the directory, the result is -1 if and
  only if the \<open>int num_variables\<close> is 0, that is, if and only if the difference of the two
  decoded vertex offsets is a multiple of \<open>2^32\<close>; equal offsets give -1 whatever the key;
  every result the evaluation returns otherwise is non-negative; and when the difference
  of the offsets lies in \<open>(0, 2^31)\<close> and the chunk's vertices lie inside the label array and
  below \<open>2^36\<close>, the evaluation does return a result, a non-negative ordinal in
  \<open>[offset, offset + num_variables)\<close> for the offset field of the chunk's entry.
\<close>

theorem evaluate_minus_one:
  assumes "result = get_byte_array spooky_short spooky_short_rehash m key len
             \<and> h = spooky_short key len (global_seed m)
           \<or> result = get_uint64_t en spooky_short spooky_short_rehash m k
             \<and> h = spooky_short (object_bytes en k) 8 (global_seed m)"
    and "chunk_of m (fst h) = Some chunk"
    and "array_get (edge_offset_and_seed m) (sint chunk) = Some entry"
    and "array_get (edge_offset_and_seed m) (sint (chunk + 1)) = Some next_entry"
  shows "(result = Some (- 1)
            \<longleftrightarrow> (ucast (vertex_offset next_entry - vertex_offset entry) :: i32) = 0)
       \<and> ((ucast (vertex_offset next_entry - vertex_offset entry) :: i32) = 0
            \<longleftrightarrow> unat (vertex_offset next_entry - vertex_offset entry) mod 2 ^ 32 = 0)
       \<and> (vertex_offset next_entry = vertex_offset entry \<longrightarrow> result = Some (- 1))
       \<and> (\<forall>r. result = Some r \<longrightarrow> r = - 1 \<or> 0 \<le> sint r)
       \<and> (unat (vertex_offset entry) < unat (vertex_offset next_entry)
            \<and> unat (vertex_offset next_entry) - unat (vertex_offset entry) < 2 ^ 31
            \<and> unat (vertex_offset next_entry) \<le> 32 * length (array m)
            \<and> unat (vertex_offset next_entry) \<le> 2 ^ 36
          \<longrightarrow> (\<exists>r j. result = Some r \<and> 0 \<le> sint r
                 \<and> sint r = int (spec_field entry + j)
                 \<and> j < unat (vertex_offset next_entry) - unat (vertex_offset entry)))"
proof -
  let ?nv = "ucast (vertex_offset next_entry - vertex_offset entry) :: i32"
  have res: "result = evaluate_hash spooky_short_rehash m h"
    using assms(1) by (auto simp: get_byte_array_evaluate get_uint64_t_evaluate)
  have zero: "?nv = 0 \<Longrightarrow> result = Some (- 1)"
    unfolding res using assms(2-4) by (rule evaluate_hash_result(1))
  have pos: "?nv \<noteq> 0 \<Longrightarrow> result = Some r \<Longrightarrow> 0 \<le> sint r" for r
    unfolding res using assms(2-4) by (rule evaluate_hash_result(2))
  have a: "result = Some (- 1) \<longleftrightarrow> ?nv = 0"
  proof
    assume "result = Some (- 1)"
    then show "?nv = 0" using pos [of "- 1"] by auto
  qed (rule zero)
  have b: "?nv = 0 \<longleftrightarrow> unat (vertex_offset next_entry - vertex_offset entry) mod 2 ^ 32 = 0"
    by (rule ucast32_zero_iff)
  have c: "vertex_offset next_entry = vertex_offset entry \<longrightarrow> result = Some (- 1)"
    using zero by simp
  have d: "\<forall>r. result = Some r \<longrightarrow> r = - 1 \<or> 0 \<le> sint r"
    using zero pos by (cases "?nv = 0") auto
  have t: "\<exists>r j. result = Some r \<and> 0 \<le> sint r
                 \<and> sint r = int (spec_field entry + j)
                 \<and> j < unat (vertex_offset next_entry) - unat (vertex_offset entry)"
    if "unat (vertex_offset entry) < unat (vertex_offset next_entry)"
      and "unat (vertex_offset next_entry) - unat (vertex_offset entry) < 2 ^ 31"
      and "unat (vertex_offset next_entry) \<le> 32 * length (array m)"
      and "unat (vertex_offset next_entry) \<le> 2 ^ 36"
    unfolding res using assms(2-4) that by (rule evaluate_hash_ordinal)
  show ?thesis
  proof (intro conjI impI)
    show "result = Some (- 1) \<longleftrightarrow> ?nv = 0" by (rule a)
    show "?nv = 0 \<longleftrightarrow> unat (vertex_offset next_entry - vertex_offset entry) mod 2 ^ 32 = 0" by (rule b)
    show "result = Some (- 1)" if "vertex_offset next_entry = vertex_offset entry"
      using c that by simp
    show "\<forall>r. result = Some r \<longrightarrow> r = - 1 \<or> 0 \<le> sint r" by (rule d)
    show "\<exists>r j. result = Some r \<and> 0 \<le> sint r
                 \<and> sint r = int (spec_field entry + j)
                 \<and> j < unat (vertex_offset next_entry) - unat (vertex_offset entry)"
      if "unat (vertex_offset entry) < unat (vertex_offset next_entry)
            \<and> unat (vertex_offset next_entry) - unat (vertex_offset entry) < 2 ^ 31
            \<and> unat (vertex_offset next_entry) \<le> 32 * length (array m)
            \<and> unat (vertex_offset next_entry) \<le> 2 ^ 36"
      using that t by blast
  qed
qed


lemma object_bytes_2: "object_bytes Little_Endian 2 = [2, 0, 0, 0, 0, 0, 0, 0]"
  by (simp add: object_bytes_def upt_conv_Cons)

lemma example_eval_u64: "get_uint64_t Little_Endian toy_short toy_rehash example_mph 2 = Some 2"
  by (simp add: get_uint64_t_def object_bytes_2 eval_defs example_mph_def
        clzll_2 clzll_1 cnp_57)

lemma empty_eval: "get_byte_array toy_short toy_rehash empty_chunk_mph [0] 1 = Some (- 1)"
  by (simp add: eval_defs empty_chunk_mph_def)



theorem evaluate_minus_one_witness:
  "chunk_of example_mph (fst (toy_short [1] 1 (global_seed example_mph))) = Some 0
   \<and> array_get (edge_offset_and_seed example_mph) (sint (0 :: i32)) = Some 0x0500000000000000
   \<and> array_get (edge_offset_and_seed example_mph) (sint (0 + 1 :: i32)) = Some 0x0900000000000002
   \<and> (ucast (vertex_offset 0x0900000000000002 - vertex_offset 0x0500000000000000) :: i32) = 2
   \<and> get_byte_array toy_short toy_rehash example_mph [1] 1 = Some 1
   \<and> (get_byte_array toy_short toy_rehash example_mph [1] 1 = Some (- 1)
        \<longleftrightarrow> (ucast (vertex_offset 0x0900000000000002 - vertex_offset 0x0500000000000000) :: i32) = 0)
   \<and> unat (vertex_offset 0x0500000000000000) < unat (vertex_offset 0x0900000000000002)
   \<and> unat (vertex_offset 0x0900000000000002) - unat (vertex_offset 0x0500000000000000) < 2 ^ 31
   \<and> unat (vertex_offset 0x0900000000000002) \<le> 32 * length (array example_mph)
   \<and> unat (vertex_offset 0x0900000000000002) \<le> 2 ^ 36
   \<and> (\<exists>r j. get_byte_array toy_short toy_rehash example_mph [1] 1 = Some r \<and> 0 \<le> sint r
          \<and> sint r = int (spec_field 0x0500000000000000 + j)
          \<and> j < unat (vertex_offset 0x0900000000000002) - unat (vertex_offset 0x0500000000000000))
   \<and> chunk_of example_mph
         (fst (toy_short (object_bytes Little_Endian 2) 8 (global_seed example_mph))) = Some 1
   \<and> array_get (edge_offset_and_seed example_mph) (sint (1 :: i32)) = Some 0x0900000000000002
   \<and> array_get (edge_offset_and_seed example_mph) (sint (1 + 1 :: i32)) = Some 3
   \<and> get_uint64_t Little_Endian toy_short toy_rehash example_mph 2 = Some 2
   \<and> (get_uint64_t Little_Endian toy_short toy_rehash example_mph 2 = Some (- 1)
        \<longleftrightarrow> (ucast (vertex_offset 3 - vertex_offset 0x0900000000000002) :: i32) = 0)
   \<and> chunk_of empty_chunk_mph (fst (toy_short [0] 1 (global_seed empty_chunk_mph))) = Some 0
   \<and> array_get (edge_offset_and_seed empty_chunk_mph) (sint (0 :: i32)) = Some 0x0500000000000000
   \<and> array_get (edge_offset_and_seed empty_chunk_mph) (sint (0 + 1 :: i32)) = Some 0x0900000000000000
   \<and> vertex_offset 0x0900000000000000 = vertex_offset 0x0500000000000000
   \<and> get_byte_array toy_short toy_rehash empty_chunk_mph [0] 1 = Some (- 1)"
proof -
  have h1: "chunk_of example_mph (fst (toy_short [1] 1 (global_seed example_mph))) = Some 0"
    "array_get (edge_offset_and_seed example_mph) (sint (0 :: i32)) = Some 0x0500000000000000"
    "array_get (edge_offset_and_seed example_mph) (sint (0 + 1 :: i32)) = Some 0x0900000000000002"
    by (simp_all add: eval_defs example_mph_def)
  have h2: "chunk_of example_mph
         (fst (toy_short (object_bytes Little_Endian 2) 8 (global_seed example_mph))) = Some 1"
    "array_get (edge_offset_and_seed example_mph) (sint (1 :: i32)) = Some 0x0900000000000002"
    "array_get (edge_offset_and_seed example_mph) (sint (1 + 1 :: i32)) = Some 3"
    by (simp_all add: eval_defs example_mph_def object_bytes_2)
  have h3: "chunk_of empty_chunk_mph (fst (toy_short [0] 1 (global_seed empty_chunk_mph))) = Some 0"
    "array_get (edge_offset_and_seed empty_chunk_mph) (sint (0 :: i32)) = Some 0x0500000000000000"
    "array_get (edge_offset_and_seed empty_chunk_mph) (sint (0 + 1 :: i32)) = Some 0x0900000000000000"
    by (simp_all add: eval_defs empty_chunk_mph_def)
  have v: "(ucast (vertex_offset 0x0900000000000002 - vertex_offset 0x0500000000000000) :: i32) = 2"
    "vertex_offset 0x0900000000000000 = vertex_offset 0x0500000000000000"
    by (simp_all add: eval_defs)
  have b: "unat (vertex_offset 0x0500000000000000) < unat (vertex_offset 0x0900000000000002)"
    "unat (vertex_offset 0x0900000000000002) - unat (vertex_offset 0x0500000000000000) < 2 ^ 31"
    "unat (vertex_offset 0x0900000000000002) \<le> 32 * length (array example_mph)"
    "unat (vertex_offset 0x0900000000000002) \<le> 2 ^ 36"
    by (simp_all add: eval_defs example_mph_def)
  note t1 = evaluate_minus_one [where result = "get_byte_array toy_short toy_rehash example_mph [1] 1"
      and h = "toy_short [1] 1 (global_seed example_mph)", OF disjI1 h1, OF conjI, OF refl refl]
  note t2 = evaluate_minus_one [where result = "get_uint64_t Little_Endian toy_short toy_rehash example_mph 2"
      and h = "toy_short (object_bytes Little_Endian 2) 8 (global_seed example_mph)",
      OF disjI2 h2, OF conjI, OF refl refl]
  note t3 = evaluate_minus_one [where result = "get_byte_array toy_short toy_rehash empty_chunk_mph [0] 1"
      and h = "toy_short [0] 1 (global_seed empty_chunk_mph)", OF disjI1 h3, OF conjI, OF refl refl]
  from t3 v(2) have e3: "get_byte_array toy_short toy_rehash empty_chunk_mph [0] 1 = Some (- 1)"
    by blast
  from t1 b have o1: "\<exists>r j. get_byte_array toy_short toy_rehash example_mph [1] 1 = Some r \<and> 0 \<le> sint r
          \<and> sint r = int (spec_field 0x0500000000000000 + j)
          \<and> j < unat (vertex_offset 0x0900000000000002) - unat (vertex_offset 0x0500000000000000)"
    by blast
  from t1 have i1: "get_byte_array toy_short toy_rehash example_mph [1] 1 = Some (- 1)
        \<longleftrightarrow> (ucast (vertex_offset 0x0900000000000002 - vertex_offset 0x0500000000000000) :: i32) = 0"
    by blast
  from t2 have i2: "get_uint64_t Little_Endian toy_short toy_rehash example_mph 2 = Some (- 1)
        \<longleftrightarrow> (ucast (vertex_offset 3 - vertex_offset 0x0900000000000002) :: i32) = 0"
    by blast
  show ?thesis
    by (intro conjI h1 h2 h3 v b o1 i1 i2 e3 example_eval_1 example_eval_u64)
qed




section \<open>The loader reports no error\<close>


















section \<open>Evaluation over a built key set\<close>

subsection \<open>The evaluation of a key of the set\<close>



subsection \<open>The ordinals of the keys are a permutation\<close>











subsection \<open>Three built indices\<close>




































end
